theory Spec2Isabelle
  imports Main
begin

section \<open>Sentence blocks and sentence queues (kplex.c)\<close>

text \<open>
  Pointers are modelled as optional addresses: \<open>None\<close> is the C \<open>NULL\<close>.
  A pointer to a \<open>senblk_t\<close> inside a queue is the index of the slot in the queue's
  \<open>base\<close> array; a pointer to an \<open>iface_t\<close> is the address of the interface.
  The ways the code can leave defined behaviour are the values of \<open>fault\<close>: a
  dereferenced \<open>NULL\<close> pointer, an access outside an array, and the use of a variable
  that has not been assigned.
\<close>

datatype fault = NullDeref | OutOfBounds | Uninitialised

text \<open>
  \<open>senblk_t\<close> and \<open>ioqueue_t\<close>. The member \<open>next\<close> is \<open>snext\<close> here, and \<open>data\<close> is the
  array of \<open>SENMAX\<close> bytes. The mutex and the condition variable of a queue hold no
  data. The slot indices kept in a well-formed queue (\<open>q_inv\<close> below) are inside
  \<open>base\<close>.
\<close>

record senblk =
  len :: nat
  src :: "nat option"
  data :: "char list"
  snext :: "nat option"

record ioqueue =
  base :: "senblk list"
  free :: "nat option"
  qhead :: "nat option"
  qtail :: "nat option"
  active :: bool

text \<open>
  \<open>init_q\<close>: \<open>calloc\<close> zeroes the \<open>size\<close> slots (each with a \<open>data\<close> array of
  \<open>SENMAX\<close> bytes, the macro being a parameter here), the loop links slot \<open>i\<close> to slot
  \<open>i + 1\<close> for \<open>i < size - 1\<close>, and the last slot gets \<open>NULL\<close>. With \<open>size = 0\<close> the
  decrement of the unsigned \<open>size\<close> wraps around and the loop writes behind the
  allocation, so no queue results. Failure of \<open>malloc\<close> is not modelled.
\<close>

definition zero_senblk :: "nat \<Rightarrow> senblk" where
  "zero_senblk senmax = \<lparr>len = 0, src = None, data = replicate senmax (CHR 0x00), snext = None\<rparr>"

definition init_q :: "nat \<Rightarrow> nat \<Rightarrow> ioqueue option" where
  "init_q senmax sz =
     (if sz = 0 then None
      else Some \<lparr>base = map (\<lambda>i. (zero_senblk senmax)
                                  \<lparr>snext := (if i < sz - 1 then Some (i + 1) else None)\<rparr>)
                            [0..<sz],
                 free = Some 0, qhead = None, qtail = None, active = True\<rparr>)"

text \<open>
  \<open>senblk_copy\<close>: \<open>memcpy\<close> overwrites the first \<open>len\<close> bytes of the destination's
  \<open>data\<close> and leaves the rest; a length beyond either array is out of bounds.
\<close>

definition senblk_copy :: "senblk \<Rightarrow> senblk \<Rightarrow> fault + senblk" where
  "senblk_copy dptr sptr =
     (if len sptr \<le> length (data dptr) \<and> len sptr \<le> length (data sptr)
      then Inr (dptr\<lparr>len := len sptr, src := src sptr, snext := None,
                      data := take (len sptr) (data sptr) @ drop (len sptr) (data dptr)\<rparr>)
      else Inl OutOfBounds)"

text \<open>
  \<open>push_senblk\<close>, statement by statement. With an empty free list the slot is
  taken from \<open>qhead\<close>; when \<open>qhead\<close> is \<open>NULL\<close> too, \<open>q->qhead->next\<close> dereferences
  \<open>NULL\<close>. The mutex and the broadcast have no effect on the queue's fields.
\<close>

definition take_slot :: "ioqueue \<Rightarrow> fault + (nat \<times> ioqueue)" where
  "take_slot q =
     (case free q of
        Some t \<Rightarrow> Inr (t, q\<lparr>free := snext (base q ! t)\<rparr>)
      | None \<Rightarrow>
          (case qhead q of
             None \<Rightarrow> Inl NullDeref
           | Some t \<Rightarrow> Inr (t, q\<lparr>qhead := snext (base q ! t)\<rparr>)))"

definition link_tail :: "nat \<Rightarrow> ioqueue \<Rightarrow> ioqueue" where
  "link_tail t q =
     (let q1 = (case qtail q of
                  Some l \<Rightarrow> q\<lparr>base := (base q)[l := (base q ! l)\<lparr>snext := Some t\<rparr>]\<rparr>
                | None \<Rightarrow> q);
          q2 = q1\<lparr>qtail := Some t\<rparr>
      in if qhead q2 = None then q2\<lparr>qhead := Some t\<rparr> else q2)"

definition push_senblk :: "senblk option \<Rightarrow> ioqueue \<Rightarrow> fault + ioqueue" where
  "push_senblk sptr q =
     (case sptr of
        None \<Rightarrow> Inr (q\<lparr>active := False\<rparr>)
      | Some s \<Rightarrow>
          (case take_slot q of
             Inl e \<Rightarrow> Inl e
           | Inr (t, q1) \<Rightarrow>
               (case senblk_copy (base q1 ! t) s of
                  Inl e \<Rightarrow> Inl e
                | Inr d \<Rightarrow> Inr (link_tail t (q1\<lparr>base := (base q1)[t := d]\<rparr>)))))"

text \<open>
  \<open>next_senblk\<close>: with an empty queue that is still active the caller waits on the
  condition variable; the call does not return in that state, which is the result
  \<open>Blocked\<close>. Otherwise it returns \<open>NULL\<close> (\<open>EndOfStream\<close>) or detaches the head slot.
\<close>

datatype next_result = Blocked | EndOfStream | Slot nat

definition next_senblk :: "ioqueue \<Rightarrow> next_result \<times> ioqueue" where
  "next_senblk q =
     (case qhead q of
        None \<Rightarrow> (if \<not> active q then (EndOfStream, q) else (Blocked, q))
      | Some t \<Rightarrow>
          (let q1 = q\<lparr>qhead := snext (base q ! t)\<rparr>
           in (Slot t, if qhead q1 = None then q1\<lparr>qtail := None\<rparr> else q1)))"

definition senblk_free :: "nat \<Rightarrow> ioqueue \<Rightarrow> ioqueue" where
  "senblk_free t q = q\<lparr>base := (base q)[t := (base q ! t)\<lparr>snext := free q\<rparr>], free := Some t\<rparr>"

subsection \<open>Reading the linked lists of a queue\<close>

text \<open>
  \<open>chain h p xs\<close>: following \<open>next\<close> from \<open>p\<close> visits exactly the slots \<open>xs\<close>, all
  inside the array, and ends in \<open>NULL\<close>. \<open>walk n h p\<close> follows at most \<open>n\<close> links.
\<close>

fun chain :: "senblk list \<Rightarrow> nat option \<Rightarrow> nat list \<Rightarrow> bool" where
  "chain h p [] = (p = None)"
| "chain h p (x # xs) = (p = Some x \<and> x < length h \<and> chain h (snext (h ! x)) xs)"

fun walk :: "nat \<Rightarrow> senblk list \<Rightarrow> nat option \<Rightarrow> nat list" where
  "walk 0 h p = []"
| "walk (Suc n) h None = []"
| "walk (Suc n) h (Some t) = t # walk n h (snext (h ! t))"

definition free_slots :: "ioqueue \<Rightarrow> nat list" where
  "free_slots q = walk (length (base q)) (base q) (free q)"

definition enqueued :: "ioqueue \<Rightarrow> nat list" where
  "enqueued q = walk (length (base q)) (base q) (qhead q)"

text \<open>What a unit carries: its length, its source and the first \<open>len\<close> bytes of data.\<close>

definition unit_of :: "senblk \<Rightarrow> nat \<times> nat option \<times> char list" where
  "unit_of s = (len s, src s, take (len s) (data s))"

definition contents :: "ioqueue \<Rightarrow> (nat \<times> nat option \<times> char list) list" where
  "contents q = map (\<lambda>t. unit_of (base q ! t)) (enqueued q)"

subsection \<open>Well-formed queues\<close>

text \<open>
  \<open>q_inv q fl ql held\<close>: the free list is \<open>fl\<close>, the FIFO is \<open>ql\<close>, the slots handed
  out by \<open>next_senblk\<close> and not yet given back are \<open>held\<close>; together they are the slots
  of the array, each once, and \<open>qtail\<close> is the last slot of the FIFO (\<open>NULL\<close> when the
  FIFO is empty). \<open>data_ok\<close>: every slot has a \<open>data\<close> array of \<open>SENMAX\<close> bytes.
\<close>

definition q_inv :: "ioqueue \<Rightarrow> nat list \<Rightarrow> nat list \<Rightarrow> nat list \<Rightarrow> bool" where
  "q_inv q fl ql held =
     (chain (base q) (free q) fl \<and> chain (base q) (qhead q) ql \<and>
      distinct (fl @ ql @ held) \<and> set (fl @ ql @ held) = {..<length (base q)} \<and>
      qtail q = (if ql = [] then None else Some (last ql)))"

definition data_ok :: "nat \<Rightarrow> ioqueue \<Rightarrow> bool" where
  "data_ok senmax q = list_all (\<lambda>s. length (data s) = senmax) (base q)"

definition cont :: "ioqueue \<Rightarrow> nat list \<Rightarrow> (nat \<times> nat option \<times> char list) list" where
  "cont q xs = map (\<lambda>t. unit_of (base q ! t)) xs"

text \<open>
  A unit that may be pushed has a \<open>data\<close> array of \<open>SENMAX\<close> bytes and a length within
  it. \<open>push_safe\<close> is the state in which \<open>push_senblk\<close> finds a slot and leaves a
  well-formed queue: a free slot, or a FIFO whose head is not also its tail.
\<close>

definition unit_ok :: "nat \<Rightarrow> senblk \<Rightarrow> bool" where
  "unit_ok senmax u = (length (data u) = senmax \<and> len u \<le> senmax)"

definition push_safe :: "ioqueue \<Rightarrow> bool" where
  "push_safe q = (free q \<noteq> None \<or> (qhead q \<noteq> None \<and> qhead q \<noteq> qtail q))"

text \<open>Pushing the units of a list one after the other.\<close>

fun push_all :: "senblk list \<Rightarrow> ioqueue \<Rightarrow> fault + ioqueue" where
  "push_all [] q = Inr q"
| "push_all (u # us) q =
     (case push_senblk (Some u) q of Inl e \<Rightarrow> Inl e | Inr q' \<Rightarrow> push_all us q')"

subsection \<open>Sequences of queue operations\<close>

text \<open>
  A client of one queue issues \<open>push_senblk\<close>, \<open>next_senblk\<close> and \<open>senblk_free\<close> calls.
  The client state is the queue, the slots the client holds, and the results of its
  \<open>next_senblk\<close> calls in order. \<open>op_ok\<close> says when a call keeps to the queue's contract:
  a pushed unit fits, the queue is \<open>push_safe\<close>, and only a held slot is freed. A
  \<open>next_senblk\<close> on an empty active queue waits: it is recorded as \<open>Blocked\<close>, changes
  nothing, and the calls of the other tasks go on.
\<close>

datatype qop = Push "senblk option" | Next | Free nat

type_synonym client = "ioqueue \<times> nat list \<times> next_result list"

fun q_step :: "qop \<Rightarrow> client \<Rightarrow> fault + client" where
  "q_step (Push sptr) (q, held, outs) =
     (case push_senblk sptr q of Inl e \<Rightarrow> Inl e | Inr q' \<Rightarrow> Inr (q', held, outs))"
| "q_step Next (q, held, outs) =
     (case next_senblk q of
        (Slot t, q') \<Rightarrow> Inr (q', t # held, outs @ [Slot t])
      | (r, q') \<Rightarrow> Inr (q', held, outs @ [r]))"
| "q_step (Free t) (q, held, outs) = Inr (senblk_free t q, remove1 t held, outs)"

fun q_run :: "qop list \<Rightarrow> client \<Rightarrow> fault + client" where
  "q_run [] c = Inr c"
| "q_run (a # ops) c = (case q_step a c of Inl e \<Rightarrow> Inl e | Inr c' \<Rightarrow> q_run ops c')"

fun op_ok :: "nat \<Rightarrow> qop \<Rightarrow> client \<Rightarrow> bool" where
  "op_ok senmax (Push None) c = True"
| "op_ok senmax (Push (Some u)) (q, held, outs) = (unit_ok senmax u \<and> push_safe q)"
| "op_ok senmax Next c = True"
| "op_ok senmax (Free t) (q, held, outs) = (t \<in> set held)"

fun legal :: "nat \<Rightarrow> qop list \<Rightarrow> client \<Rightarrow> bool" where
  "legal senmax [] c = True"
| "legal senmax (a # ops) c =
     (op_ok senmax a c \<and> (case q_step a c of Inl e \<Rightarrow> True | Inr c' \<Rightarrow> legal senmax ops c'))"

fun is_data_push :: "qop \<Rightarrow> bool" where
  "is_data_push (Push (Some u)) = True"
| "is_data_push a = False"

text \<open>
  \<open>observe\<close> runs a sequence of calls on a fresh queue and reports the results of the
  \<open>next_senblk\<close> calls and the numbers of free, enqueued and held slots at the end.
  \<open>demo_unit k\<close> is a unit of two bytes from the interface at address \<open>k\<close>, for
  \<open>SENMAX = 4\<close>.
\<close>

definition observe :: "nat \<Rightarrow> nat \<Rightarrow> qop list \<Rightarrow> (fault + next_result list \<times> nat \<times> nat \<times> nat) option" where
  "observe senmax sz ops =
     (case init_q senmax sz of
        None \<Rightarrow> None
      | Some q0 \<Rightarrow>
          Some (case q_run ops (q0, [], []) of
                  Inl e \<Rightarrow> Inl e
                | Inr (q, held, outs) \<Rightarrow>
                    Inr (outs, length (free_slots q), length (enqueued q), length held)))"

definition demo_unit :: "nat \<Rightarrow> senblk" where
  "demo_unit k = \<lparr>len = 2, src = Some k, data = ''ab'' @ [CHR 0x00, CHR 0x00], snext = None\<rparr>"

text \<open>
  Three concrete queues of two slots with \<open>SENMAX = 4\<close>: fresh; holding one unit; and
  with the first of two units handed out by \<open>next_senblk\<close>, so that no slot is free and
  one unit is enqueued.
\<close>

definition q_fresh :: ioqueue where
  "q_fresh = \<lparr>base = [\<lparr>len = 0, src = None, data = replicate 4 (CHR 0x00), snext = Some 1\<rparr>,
                     \<lparr>len = 0, src = None, data = replicate 4 (CHR 0x00), snext = None\<rparr>],
              free = Some 0, qhead = None, qtail = None, active = True\<rparr>"

definition q_one :: ioqueue where
  "q_one = \<lparr>base = [\<lparr>len = 2, src = Some 2, data = ''ab'' @ [CHR 0x00, CHR 0x00], snext = None\<rparr>,
                     \<lparr>len = 0, src = None, data = replicate 4 (CHR 0x00), snext = None\<rparr>],
              free = Some 1, qhead = Some 0, qtail = Some 0, active = True\<rparr>"

definition q_tight :: ioqueue where
  "q_tight = \<lparr>base = [\<lparr>len = 2, src = Some 1, data = ''ab'' @ [CHR 0x00, CHR 0x00], snext = Some 1\<rparr>,
                     \<lparr>len = 2, src = Some 2, data = ''ab'' @ [CHR 0x00, CHR 0x00], snext = None\<rparr>],
              free = None, qhead = Some 1, qtail = Some 1, active = True\<rparr>"

section \<open>Interfaces, the interface lists and the engine (kplex.c, serial.c)\<close>

text \<open>
  An \<open>iface_t\<close> lives at an address; \<open>pair\<close> and the queue member \<open>q\<close> (\<open>ifq\<close> here,
  as \<open>type\<close> is \<open>iftype\<close>) are pointers, so the interfaces and the queues are kept in
  two stores indexed by address. \<open>tid\<close> is 0 as long as no thread runs the interface. The
  intrusive \<open>next\<close> links of the four lists of \<open>struct iolists\<close> are modelled by lists
  of addresses. Of the members of \<open>iface_t\<close> the function pointers are left out: every
  interface of serial.c has \<open>cleanup_serial\<close> as its \<open>cleanup\<close>. The system calls made
  on a device are recorded in \<open>devlog\<close>, the \<open>SIGUSR1\<close> signals sent in \<open>signalled\<close>.
\<close>

datatype iotype = NONE | IN | OUT | BOTH

datatype itype = GLOBAL | FILEIO | SERIAL | BCAST | TCP | PTY | ST | END

record if_serial =
  fd :: int
  otermios :: nat

record iface =
  tid :: nat
  pair :: "nat option"
  direction :: iotype
  iftype :: itype
  info :: "if_serial option"
  options :: "(string \<times> string) list"
  ifq :: "nat option"

datatype dev_event = Tcsetattr int nat | Close int

record iolists =
  ifaces :: "nat \<Rightarrow> iface option"
  qs :: "nat \<Rightarrow> ioqueue option"
  initialized :: "nat list"
  outputs :: "nat list"
  inputs :: "nat list"
  dead :: "nat list"
  devlog :: "dev_event list"
  signalled :: "nat list"

text \<open>Sequencing of steps that can stop early: the first \<open>Inl\<close> is the result.\<close>

definition thenf :: "'e + 'a \<Rightarrow> ('a \<Rightarrow> 'e + 'b) \<Rightarrow> 'e + 'b" where
  "thenf r f = (case r of Inl e \<Rightarrow> Inl e | Inr x \<Rightarrow> f x)"


lemma thenf_simps [simp]: "thenf (Inr x) f = f x" "thenf (Inl e) f = Inl e"
  by (simp_all add: thenf_def)

subsection \<open>The engine\<close>



subsection \<open>Splitting a bidirectional serial interface\<close>




subsection \<open>Taking an interface off the lists\<close>

text \<open>
  \<open>cleanup_serial\<close> restores the saved terminal attributes only when \<open>pair\<close> is \<open>NULL\<close>,
  and closes the descriptor. A failing \<open>tcsetattr\<close> only logs a warning.
\<close>

definition cleanup_serial :: "iface \<Rightarrow> dev_event list \<Rightarrow> fault + dev_event list" where
  "cleanup_serial ifa log =
     (case info ifa of
        None \<Rightarrow> Inl NullDeref
      | Some ifs \<Rightarrow>
          Inr (log @ (if pair ifa = None then [Tcsetattr (fd ifs) (otermios ifs)] else [])
                   @ [Close (fd ifs)]))"

text \<open>
  Unlinking from one list: the head is taken off, otherwise the list is walked to the
  predecessor of \<open>ifa\<close>; when \<open>ifa\<close> is not on the list the walk reads \<open>next\<close> of \<open>NULL\<close>.
\<close>

definition list_unlink :: "nat \<Rightarrow> nat list \<Rightarrow> fault + nat list" where
  "list_unlink ifa l = (if ifa \<in> set l then Inr (remove1 ifa l) else Inl NullDeref)"

definition set_inactive :: "nat option \<Rightarrow> iolists \<Rightarrow> fault + iolists" where
  "set_inactive qp st =
     (case qp of
        None \<Rightarrow> Inl NullDeref
      | Some a \<Rightarrow>
          (case qs st a of
             None \<Rightarrow> Inl NullDeref
           | Some qu \<Rightarrow> Inr (st\<lparr>qs := (qs st)(a \<mapsto> qu\<lparr>active := False\<rparr>)\<rparr>)))"

definition unlink_lists :: "nat \<Rightarrow> iface \<Rightarrow> iolists \<Rightarrow> fault + iolists" where
  "unlink_lists ifa a st =
     thenf (if direction a = IN
            then thenf (list_unlink ifa (inputs st)) (\<lambda>l. Inr (st\<lparr>inputs := l\<rparr>))
            else thenf (list_unlink ifa (outputs st)) (\<lambda>l. Inr (st\<lparr>outputs := l\<rparr>)))
       (\<lambda>st1. if direction a = BOTH
              then thenf (list_unlink ifa (inputs st1)) (\<lambda>l. Inr (st1\<lparr>inputs := l\<rparr>))
              else Inr st1)"

definition unlink_queue :: "iface \<Rightarrow> iolists \<Rightarrow> fault + iolists" where
  "unlink_queue a st =
     (case (direction a, ifq a) of
        (OUT, Some qa) \<Rightarrow> Inr (st\<lparr>qs := (qs st)(qa := None)\<rparr>)
      | _ \<Rightarrow> if inputs st = [] then set_inactive (ifq a) st else Inr st)"

definition unlink_pair :: "iface \<Rightarrow> iolists \<Rightarrow> fault + iolists" where
  "unlink_pair a st =
     (case pair a of
        None \<Rightarrow> Inr st
      | Some p \<Rightarrow>
          (case ifaces st p of
             None \<Rightarrow> Inl NullDeref
           | Some pi \<Rightarrow>
               let st1 = st\<lparr>ifaces := (ifaces st)(p \<mapsto> pi\<lparr>pair := None\<rparr>)\<rparr>
               in if direction pi = OUT then set_inactive (ifq pi) st1
                  else Inr (st1\<lparr>ifaces := (ifaces st1)(p \<mapsto> pi\<lparr>pair := None, direction := NONE\<rparr>),
                                 signalled := signalled st1 @ (if tid pi \<noteq> 0 then [tid pi] else [])\<rparr>)))"

text \<open>
  \<open>unlink_interface\<close> in the order of the source: off the active list(s), the queue,
  \<open>cleanup\<close>, \<open>free(ifa->info)\<close> (the freed pointer is \<open>None\<close> afterwards), the notice to
  the paired interface, and the dead list.
\<close>

definition unlink_interface :: "nat \<Rightarrow> iolists \<Rightarrow> fault + iolists" where
  "unlink_interface ifa st =
     (case ifaces st ifa of
        None \<Rightarrow> Inl NullDeref
      | Some a \<Rightarrow>
          thenf (unlink_lists ifa a st) (\<lambda>st1.
          thenf (unlink_queue a st1) (\<lambda>st2.
          thenf (cleanup_serial a (devlog st2)) (\<lambda>log.
          thenf (unlink_pair a (st2\<lparr>devlog := log, ifaces := (ifaces st2)(ifa \<mapsto> a\<lparr>info := None\<rparr>)\<rparr>))
            (\<lambda>st3. Inr (st3\<lparr>dead := dead st3 @ [ifa]\<rparr>))))))"

subsection \<open>The threads at work\<close>






text \<open>
  \<open>no_src i qu\<close>: no slot of the queue \<open>qu\<close> carries a sentence whose \<open>src\<close> is the
  interface at \<open>i\<close>. \<open>queue_contents qa st\<close> are the units enqueued in the queue at \<open>qa\<close>.
\<close>

definition no_src :: "nat \<Rightarrow> ioqueue \<Rightarrow> bool" where
  "no_src i qu = list_all (\<lambda>s. src s \<noteq> Some i) (base qu)"


text \<open>
  \<open>paired_inv inp outp qa st\<close>: the output at \<open>outp\<close> has the interface at \<open>inp\<close> as its
  \<open>pair\<close> and the queue at \<open>qa\<close> as its own; no other interface has that queue, none but
  \<open>inp\<close> has \<open>outp\<close> as its \<open>pair\<close>; and the queue holds no sentence of \<open>inp\<close>.
\<close>

definition paired_inv :: "nat \<Rightarrow> nat \<Rightarrow> nat \<Rightarrow> iolists \<Rightarrow> bool" where
  "paired_inv inp outp qa st =
     ((\<exists>oi. ifaces st outp = Some oi \<and> pair oi = Some inp \<and> ifq oi = Some qa) \<and>
      (\<forall>x ia. x \<noteq> outp \<and> ifaces st x = Some ia \<longrightarrow> ifq ia \<noteq> Some qa) \<and>
      (\<forall>x ia. x \<noteq> inp \<and> ifaces st x = Some ia \<longrightarrow> pair ia \<noteq> Some outp) \<and>
      (\<forall>qu. qs st qa = Some qu \<longrightarrow> no_src inp qu))"

text \<open>
  A serial device opened \<open>BOTH\<close> ways after start-up: the output half at address 1 with
  descriptor 3 and its own queue at 11, the input half at address 2 with the duplicated
  descriptor 4, pushing to the central queue at 10.
\<close>

definition demo_out :: iface where
  "demo_out = \<lparr>tid = 101, pair = Some 2, direction = OUT, iftype = SERIAL,
               info = Some \<lparr>fd = 3, otermios = 0\<rparr>, options = [], ifq = Some 11\<rparr>"

definition demo_in :: iface where
  "demo_in = \<lparr>tid = 102, pair = Some 1, direction = IN, iftype = SERIAL,
              info = Some \<lparr>fd = 4, otermios = 0\<rparr>, options = [], ifq = Some 10\<rparr>"

definition demo_engine :: iface where
  "demo_engine = \<lparr>tid = 0, pair = None, direction = NONE, iftype = GLOBAL,
                  info = None, options = [], ifq = Some 10\<rparr>"

definition demo_lists :: iolists where
  "demo_lists = \<lparr>ifaces = [0 \<mapsto> demo_engine, 1 \<mapsto> demo_out, 2 \<mapsto> demo_in],
                 qs = [10 \<mapsto> q_one, 11 \<mapsto> q_fresh],
                 initialized = [], outputs = [1], inputs = [2], dead = [],
                 devlog = [], signalled = []\<rparr>"




section \<open>Reading sentences from a serial line (serial.c)\<close>

text \<open>
  The state of \<open>read_serial\<close> between two bytes: the local \<open>sblk.data\<close> (\<open>SENMAX\<close> bytes,
  not initialised at the start), the offset \<open>senptr\<close> into it, the counters \<open>count\<close>,
  \<open>overrun\<close> and \<open>cr\<close>, and in \<open>pushed\<close> the units handed to \<open>push_senblk\<close> so far, in
  order. \<open>push_senblk\<close> reads \<open>len\<close>, \<open>src\<close> and \<open>data\<close> of the unit, never its \<open>next\<close>
  member, which \<open>read_serial\<close> leaves unassigned. The counters are C \<open>int\<close>s, modelled
  without their upper bound.
\<close>

record rs_state =
  sdata :: "char list"
  senptr :: nat
  count :: nat
  overrun :: nat
  cr :: nat
  pushed :: "senblk list"

definition CR :: char where "CR = CHR 0x0D"
definition LF :: char where "LF = CHR 0x0A"

text \<open>The body of the inner \<open>for\<close> loop of \<open>read_serial\<close> for the byte \<open>b\<close>.\<close>

definition read_byte :: "nat \<Rightarrow> nat option \<Rightarrow> rs_state \<Rightarrow> char \<Rightarrow> rs_state" where
  "read_byte senmax ifa s b =
     (let s1 = (if count s < senmax
                then s\<lparr>count := count s + 1, sdata := (sdata s)[senptr s := b],
                       senptr := senptr s + 1\<rparr>
                else s\<lparr>overrun := overrun s + 1\<rparr>)
      in if b = CR then s1\<lparr>cr := cr s1 + 1\<rparr>
         else (if b = LF \<and> cr s1 \<noteq> 0
               then (if overrun s1 \<noteq> 0 then s1\<lparr>overrun := 0\<rparr>
                     else s1\<lparr>pushed := pushed s1 @
                            [\<lparr>len = count s1, src = ifa, data = sdata s1, snext = None\<rparr>]\<rparr>)
                    \<lparr>senptr := 0, count := 0\<rparr>
               else s1)\<lparr>cr := 0\<rparr>)"

text \<open>
  The outer loop: each element of \<open>chunks\<close> is what one \<open>read\<close> call delivered while the
  direction of the interface was not \<open>NONE\<close>; the loop ends with the last of them.
\<close>

definition rs_init :: "char list \<Rightarrow> rs_state" where
  "rs_init uninit = \<lparr>sdata = uninit, senptr = 0, count = 0, overrun = 0, cr = 0, pushed = []\<rparr>"

definition read_serial :: "nat \<Rightarrow> nat option \<Rightarrow> char list \<Rightarrow> char list list \<Rightarrow> rs_state" where
  "read_serial senmax ifa uninit chunks =
     foldl (\<lambda>s chunk. foldl (read_byte senmax ifa) s chunk) (rs_init uninit) chunks"

text \<open>
  A sentence on the wire ends with its first \<open>CR LF\<close>: \<open>wire_sentence s\<close> holds when \<open>s\<close>
  ends in \<open>CR LF\<close> and has no \<open>CR LF\<close> before that.
\<close>

fun has_crlf :: "char list \<Rightarrow> bool" where
  "has_crlf (a # b # cs) = ((a = CR \<and> b = LF) \<or> has_crlf (b # cs))"
| "has_crlf cs = False"

definition wire_sentence :: "char list \<Rightarrow> bool" where
  "wire_sentence s =
     (2 \<le> length s \<and> drop (length s - 2) s = [CR, LF] \<and> \<not> has_crlf (butlast s))"

text \<open>
  \<open>rs_mid senmax s p ps\<close>: what the state is after the bytes \<open>p\<close> of a sentence that is not
  yet complete, when \<open>ps\<close> had been pushed before the sentence began.
\<close>

definition rs_mid :: "nat \<Rightarrow> rs_state \<Rightarrow> char list \<Rightarrow> senblk list \<Rightarrow> bool" where
  "rs_mid senmax s p ps =
     (length (sdata s) = senmax \<and> count s = min (length p) senmax \<and> senptr s = count s \<and>
      overrun s = length p - senmax \<and> take (count s) (sdata s) = take senmax p \<and>
      (cr s \<noteq> 0 \<longleftrightarrow> p \<noteq> [] \<and> last p = CR) \<and> pushed s = ps)"

section \<open>Strings of the C library\<close>

text \<open>
  \<open>strcasecmp0 a b\<close> is \<open>strcasecmp(a, b) == 0\<close> and \<open>strncasecmp0 a b n\<close> is
  \<open>strncasecmp(a, b, n) == 0\<close>, for strings without the terminating \<open>NUL\<close>. \<open>atoi\<close>
  is \<open>(int) strtol(s, NULL, 10)\<close>, as the GNU C library has it: \<open>strtol\<close> skips white
  space, takes an optional sign and the decimal digits that follow, gives 0 when there
  are none and the nearest bound of the 64-bit \<open>long\<close> when the number is outside it;
  the conversion to \<open>int\<close> keeps the low 32 bits, in two's complement.
\<close>

definition tolower :: "char \<Rightarrow> char" where
  "tolower c = (let n = (of_char c :: nat) in if 65 \<le> n \<and> n \<le> 90 then char_of (n + 32) else c)"

definition strcasecmp0 :: "string \<Rightarrow> string \<Rightarrow> bool" where
  "strcasecmp0 a b = (map tolower a = map tolower b)"

definition strncasecmp0 :: "string \<Rightarrow> string \<Rightarrow> nat \<Rightarrow> bool" where
  "strncasecmp0 a b n = (map tolower (take n a) = map tolower (take n b))"

definition isspace :: "char \<Rightarrow> bool" where
  "isspace c = ((of_char c :: nat) = 32 \<or> (9 \<le> (of_char c :: nat) \<and> (of_char c :: nat) \<le> 13))"

definition isdigit :: "char \<Rightarrow> bool" where
  "isdigit c = (48 \<le> (of_char c :: nat) \<and> (of_char c :: nat) \<le> 57)"

fun digits :: "int \<Rightarrow> string \<Rightarrow> int" where
  "digits acc [] = acc"
| "digits acc (c # cs) = (if isdigit c then digits (10 * acc + (of_char c - 48)) cs else acc)"

definition strtol :: "string \<Rightarrow> int" where
  "strtol s =
     (let v = (case dropWhile isspace s of
                 [] \<Rightarrow> 0
               | c # cs \<Rightarrow>
                   if c = CHR ''-'' then - digits 0 cs
                   else if c = CHR ''+'' then digits 0 cs
                   else digits 0 (c # cs))
      in max (- (2 ^ 63)) (min (2 ^ 63 - 1) v))"

definition to_int32 :: "int \<Rightarrow> int" where
  "to_int32 v = (v + 2 ^ 31) mod 2 ^ 32 - 2 ^ 31"

definition atoi :: "string \<Rightarrow> int" where
  "atoi s = to_int32 (strtol s)"

section \<open>The queue size chosen by main (kplex.c)\<close>

text \<open>
  The facilities of \<open><syslog.h>\<close>. In \<open>string2facility\<close> the test \<open>(*fac + 6)\<close> of the
  \<open>localN\<close> branch is the first character plus six.
\<close>

definition string2facility :: "string \<Rightarrow> int" where
  "string2facility fac =
     (if strcasecmp0 fac ''kern'' then 0
      else if strcasecmp0 fac ''user'' then 8
      else if strcasecmp0 fac ''mail'' then 16
      else if strcasecmp0 fac ''daemon'' then 24
      else if strcasecmp0 fac ''auth'' then 32
      else if strcasecmp0 fac ''syslog'' then 40
      else if strcasecmp0 fac ''lpr'' then 48
      else if strcasecmp0 fac ''news'' then 56
      else if strcasecmp0 fac ''cron'' then 72
      else if strcasecmp0 fac ''authpriv'' then 80
      else if strcasecmp0 fac ''ftp'' then 88
      else (let c0 = (case fac of [] \<Rightarrow> (0::int) | c # cs \<Rightarrow> of_char c)
            in if \<not> strncasecmp0 fac ''local'' 5 \<or> c0 + 6 \<noteq> 0 then - 1
               else (let facnum = (if c0 + 5 - 32 < 16 then (1::int) else 0)
                     in if facnum \<noteq> 0 \<or> facnum > 23 then - 1 else facnum * 8)))"

text \<open>
  The options \<open>getopt\<close> finds on the command line, in order. The variables of \<open>main\<close>
  that the option handling sets are the fields of \<open>mainvars\<close>. The case \<open>'l'\<close> reads
  \<open>option->val\<close> before \<open>option\<close> has been assigned.
\<close>

datatype cli_opt = Opt_b | Opt_l string | Opt_q string | Opt_f string | Opt_unknown

datatype stop = Exit nat | Crash fault

record mainvars =
  background :: nat
  logto :: int
  qsize :: int
  config :: "string option"
  err :: nat

definition mainvars0 :: mainvars where
  "mainvars0 = \<lparr>background = 0, logto = 24, qsize = 0, config = None, err = 0\<rparr>"

fun getopt_loop :: "cli_opt list \<Rightarrow> mainvars \<Rightarrow> stop + mainvars" where
  "getopt_loop [] v = Inr v"
| "getopt_loop (Opt_b # rest) v = getopt_loop rest (v\<lparr>background := background v + 1\<rparr>)"
| "getopt_loop (Opt_l optarg # rest) v = Inl (Crash Uninitialised)"
| "getopt_loop (Opt_q optarg # rest) v =
     (let v1 = v\<lparr>qsize := atoi optarg\<rparr>
      in getopt_loop rest (if qsize v1 < 2 then v1\<lparr>err := err v1 + 1\<rparr> else v1))"
| "getopt_loop (Opt_f optarg # rest) v = getopt_loop rest (v\<lparr>config := Some optarg\<rparr>)"
| "getopt_loop (Opt_unknown # rest) v = getopt_loop rest (v\<lparr>err := err v + 1\<rparr>)"

text \<open>The loop over the options of the \<open>[global]\<close> section (\<open>e_info->options\<close>).\<close>

fun global_options :: "(string \<times> string) list \<Rightarrow> mainvars \<Rightarrow> stop + mainvars" where
  "global_options [] v = Inr v"
| "global_options ((var, val) # rest) v =
     (if var = ''qsize''
      then (if qsize v = 0
            then (let v1 = v\<lparr>qsize := atoi val\<rparr>
                  in if qsize v1 = 0 then Inl (Exit 1) else global_options rest v1)
            else global_options rest v)
      else if var = ''mode''
      then global_options rest
             (if background v = 0 \<and> val = ''background''
              then v\<lparr>background := background v + 1\<rparr> else v)
      else if var = ''logto''
      then (let v1 = v\<lparr>logto := string2facility val\<rparr>
            in if logto v1 < 0 then Inl (Exit 1) else global_options rest v1)
      else global_options rest v)"

text \<open>
  From the command line and the options of the global section to the argument of
  \<open>init_q\<close> for the central queue; \<open>DEFQUEUESZ\<close> (kplex.h) is the parameter \<open>defqueuesz\<close>.
\<close>

definition main_qsize :: "int \<Rightarrow> cli_opt list \<Rightarrow> (string \<times> string) list \<Rightarrow> stop + int" where
  "main_qsize defqueuesz argv goptions =
     thenf (getopt_loop argv mainvars0)
       (\<lambda>v. if err v \<noteq> 0 then Inl (Exit 1)
            else thenf (global_options goptions v)
                   (\<lambda>v'. Inr (if qsize v' \<noteq> 0 then qsize v' else defqueuesz)))"

section \<open>Parsing the configuration (options.c)\<close>

text \<open>
  \<open>configbuf\<close> is the static array of \<open>BUFSIZE\<close> bytes; it is a list of that length
  here, and a read or write behind its end is the fault \<open>OutOfBounds\<close>. A stream is
  the list of the strings that the coming \<open>fgets\<close> calls deliver (a line with its
  newline, a piece of \<open>BUFSIZE - 1\<close> bytes of a longer line, or the rest of a file
  that does not end in a newline) together with its end-of-file indicator. Read
  errors are not modelled. The line counter is an \<open>unsigned int\<close>, here without its
  upper bound.
\<close>

definition NUL :: char where "NUL = CHR 0x00"

definition is_blank :: "char \<Rightarrow> bool" where
  "is_blank c = (c = CHR '' '' \<or> c = CHR 0x09)"

type_synonym FILE = "string list \<times> bool"

definition feof :: "FILE \<Rightarrow> bool" where
  "feof fp = snd fp"

definition fgets :: "char list \<Rightarrow> FILE \<Rightarrow> bool \<times> char list \<times> FILE" where
  "fgets buf fp =
     (case fst fp of
        [] \<Rightarrow> (False, buf, ([], True))
      | l # ls \<Rightarrow>
          (True, take (length buf) (l @ [NUL] @ drop (Suc (length l)) buf),
           (ls, snd fp \<or> (ls = [] \<and> (l = [] \<or> last l \<noteq> CHR 0x0A) \<and> Suc (length l) < length buf))))"

text \<open>The C string that starts at index \<open>p\<close> of the buffer.\<close>

definition cstr :: "char list \<Rightarrow> nat \<Rightarrow> string" where
  "cstr buf p = takeWhile (\<lambda>c. c \<noteq> NUL) (drop p buf)"

text \<open>The loop \<open>for (; *ptr == ' ' || *ptr == '\t'; ptr++);\<close>.\<close>

function skip_blank :: "char list \<Rightarrow> nat \<Rightarrow> fault + nat" where
  "skip_blank buf p =
     (if p < length buf
      then (if is_blank (buf ! p) then skip_blank buf (Suc p) else Inr p)
      else Inl OutOfBounds)"
  by pat_completeness auto
termination
  by (relation "measure (\<lambda>(buf, p). length buf - p)") auto

declare skip_blank.simps [simp del]

subsection \<open>next_config\<close>

text \<open>
  The \<open>while\<close> loop of \<open>next_config\<close>: lines are read until one has something other
  than blanks, a comment or the end of the line. The result says how the loop was
  left: at the end of the file, at a line that starts a section, or at the first
  character of a body line.
\<close>

datatype line_start = At_eof | At_header | At_body nat

function next_config_line ::
  "char list \<Rightarrow> FILE \<Rightarrow> nat \<Rightarrow> fault + (line_start \<times> char list \<times> FILE \<times> nat)" where
  "next_config_line buf fp line =
     (case fgets buf fp of
        (False, buf1, fp1) \<Rightarrow> Inr (At_eof, buf1, fp1, line)
      | (True, buf1, fp1) \<Rightarrow>
          (case skip_blank buf1 0 of
             Inl e \<Rightarrow> Inl e
           | Inr p \<Rightarrow>
               if buf1 ! p = CHR ''#'' \<or> buf1 ! p = CHR 0x0A \<or> buf1 ! p = NUL
               then next_config_line buf1 fp1 (line + 1)
               else if buf1 ! p = CHR ''[''
               then Inr (At_header, buf1, fp1, line + 1)
               else Inr (At_body p, buf1, fp1, line + 1)))"
  by pat_completeness auto
termination
  by (relation "measure (\<lambda>(buf, fp, line). length (fst fp))")
     (auto simp: fgets_def split: list.splits)

declare next_config_line.simps [simp del]

text \<open>
  The loop over the name of the variable; \<open>None\<close> is the \<open>return(-1)\<close> at a \<open>NUL\<close>.
\<close>

function scan_var :: "char list \<Rightarrow> nat \<Rightarrow> fault + nat option" where
  "scan_var buf p =
     (if p < length buf
      then (if buf ! p = CHR ''='' \<or> buf ! p = CHR '' '' \<or> buf ! p = CHR 0x09 then Inr (Some p)
            else if buf ! p = NUL then Inr None
            else scan_var buf (Suc p))
      else Inl OutOfBounds)"
  by pat_completeness auto
termination
  by (relation "measure (\<lambda>(buf, p). length buf - p)") auto

declare scan_var.simps [simp del]

text \<open>
  The loop over a quoted value. Its body is the \<open>if\<close> with the empty statement that
  the semicolon after the condition leaves, so the loop only looks for the closing
  quote, through the end of the line if need be.
\<close>

function scan_quoted :: "char \<Rightarrow> char list \<Rightarrow> nat \<Rightarrow> fault + nat" where
  "scan_quoted quote buf p =
     (if p < length buf
      then (if buf ! p \<noteq> quote then scan_quoted quote buf (Suc p) else Inr p)
      else Inl OutOfBounds)"
  by pat_completeness auto
termination
  by (relation "measure (\<lambda>(quote, buf, p). length buf - p)") auto

declare scan_quoted.simps [simp del]

text \<open>
  The loop over a value without quotes: it ends at a blank (\<open>Val_blank\<close>), or returns
  from inside with 0 (\<open>Val_return0\<close>, with the buffer as it is then) or with -1.
\<close>

datatype val_scan = Val_blank nat | Val_return0 "char list" | Val_error

function scan_val :: "bool \<Rightarrow> char list \<Rightarrow> nat \<Rightarrow> fault + val_scan" where
  "scan_val at_eof buf p =
     (if p < length buf
      then (if buf ! p = CHR '' '' \<or> buf ! p = CHR 0x09 then Inr (Val_blank p)
            else if buf ! p = CHR 0x0A \<or> buf ! p = CHR ''#'' then Inr (Val_return0 (buf[p := NUL]))
            else if buf ! p = NUL then Inr (if at_eof then Val_return0 buf else Val_error)
            else scan_val at_eof buf (Suc p))
      else Inl OutOfBounds)"
  by pat_completeness auto
termination
  by (relation "measure (\<lambda>(at_eof, buf, p). length buf - p)") auto

declare scan_val.simps [simp del]

text \<open>
  What \<open>next_config\<close> hands back: \<open>Var_null\<close> is the return value 0 with \<open>*var\<close> set to
  \<open>NULL\<close>, \<open>Var_val\<close> the return value 0 with the strings \<open>*var\<close> and \<open>*val\<close> point to,
  \<open>Syntax_error\<close> the return value -1.
\<close>

datatype config_ret = Var_null | Var_val string string | Syntax_error

text \<open>The part of \<open>next_config\<close> after the first loop, for a body line that starts at \<open>var\<close>.\<close>

definition config_value :: "bool \<Rightarrow> char list \<Rightarrow> nat \<Rightarrow> nat \<Rightarrow> fault + (config_ret \<times> char list)" where
  "config_value at_eof buf var p =
     thenf (skip_blank buf p) (\<lambda>p1.
       if buf ! p1 = CHR 0x27 \<or> buf ! p1 = CHR 0x22
       then thenf (scan_quoted (buf ! p1) buf (Suc p1)) (\<lambda>p2. Inr (Syntax_error, buf))
       else thenf (scan_val at_eof buf p1) (\<lambda>r.
              case r of
                Val_return0 buf1 \<Rightarrow> Inr (Var_val (cstr buf1 var) (cstr buf1 p1), buf1)
              | Val_error \<Rightarrow> Inr (Syntax_error, buf)
              | Val_blank p2 \<Rightarrow>
                  (let buf1 = buf[p2 := NUL]
                   in thenf (skip_blank buf1 (Suc p2)) (\<lambda>p3.
                        if buf1 ! p3 = CHR 0x0A \<or> buf1 ! p3 = CHR ''#'' \<or> buf1 ! p3 = NUL
                        then Inr (Var_val (cstr buf1 var) (cstr buf1 p1), buf1)
                        else Inr (Syntax_error, buf1)))))"

definition config_pair :: "bool \<Rightarrow> char list \<Rightarrow> nat \<Rightarrow> fault + (config_ret \<times> char list)" where
  "config_pair at_eof buf var =
     thenf (scan_var buf var) (\<lambda>r.
       case r of
         None \<Rightarrow> Inr (Syntax_error, buf)
       | Some p \<Rightarrow>
           if buf ! p = CHR ''=''
           then config_value at_eof (buf[p := NUL]) var (Suc p)
           else (let buf1 = buf[p := NUL]
                 in thenf (skip_blank buf1 (Suc p)) (\<lambda>p1.
                      if buf1 ! p1 \<noteq> CHR ''='' then Inr (Syntax_error, buf1)
                      else config_value at_eof buf1 var (Suc p1))))"

definition next_config ::
  "char list \<Rightarrow> FILE \<Rightarrow> nat \<Rightarrow> fault + (config_ret \<times> char list \<times> FILE \<times> nat)" where
  "next_config buf fp line =
     thenf (next_config_line buf fp line) (\<lambda>(start, buf1, fp1, line1).
       case start of
         At_header \<Rightarrow> Inr (Var_null, buf1, fp1, line1)
       | At_eof \<Rightarrow>
           if feof fp1 then Inr (Var_null, buf1[0 := NUL], fp1, line1)
           else Inr (Syntax_error, buf1, fp1, 0)
       | At_body var \<Rightarrow>
           thenf (config_pair (feof fp1) buf1 var) (\<lambda>(r, buf2). Inr (r, buf2, fp1, line1)))"

subsection \<open>get_interface_section\<close>

text \<open>
  The table \<open>iftypes\<close> (kplex_mods.h) is a parameter: the names of the interface types
  with their \<open>itype\<close>, in the order of the table, without the final \<open>END\<close> entry.
\<close>

fun name2type :: "(string \<times> itype) list \<Rightarrow> string \<Rightarrow> itype" where
  "name2type [] str = END"
| "name2type ((name, index) # iftptr) str = (if str = name then index else name2type iftptr str)"

text \<open>
  The first loop of \<open>get_interface_section\<close>, which starts in the buffer as the last
  call of \<open>next_config\<close> left it and reads on while it finds only blanks and comments.
\<close>

datatype section_start = Bracket nat | Section_eof | Section_error

function find_bracket ::
  "char list \<Rightarrow> FILE \<Rightarrow> nat \<Rightarrow> nat \<Rightarrow> fault + (section_start \<times> char list \<times> FILE \<times> nat)" where
  "find_bracket buf fp line p =
     (if p < length buf
      then (if buf ! p = CHR ''['' then Inr (Bracket p, buf, fp, line)
            else if buf ! p = CHR '' '' \<or> buf ! p = CHR 0x09 then find_bracket buf fp line (Suc p)
            else if buf ! p = CHR 0x0A \<or> buf ! p = CHR ''#'' \<or> buf ! p = NUL
            then (case fgets buf fp of
                    (False, buf1, fp1) \<Rightarrow>
                      Inr (if feof fp1 then Section_eof else Section_error, buf1, fp1, line)
                  | (True, buf1, fp1) \<Rightarrow> find_bracket buf1 fp1 (line + 1) 0)
            else Inr (Section_error, buf, fp, line))
      else Inl OutOfBounds)"
  by pat_completeness auto
termination
  by (relation "measures [\<lambda>(buf, fp, line, p). length (fst fp), \<lambda>(buf, fp, line, p). length buf - p]")
     (auto simp: fgets_def split: list.splits)

declare find_bracket.simps [simp del]

text \<open>The loop over the section name; \<open>None\<close> is the \<open>return(-1)\<close> at the end of the line.\<close>

function scan_name :: "char list \<Rightarrow> nat \<Rightarrow> fault + nat option" where
  "scan_name buf p =
     (if p < length buf
      then (if buf ! p = CHR '']'' \<or> buf ! p = CHR '' '' \<or> buf ! p = CHR 0x09 then Inr (Some p)
            else if buf ! p = NUL \<or> buf ! p = CHR 0x0A then Inr None
            else scan_name buf (Suc p))
      else Inl OutOfBounds)"
  by pat_completeness auto
termination
  by (relation "measure (\<lambda>(buf, p). length buf - p)") auto

declare scan_name.simps [simp del]

text \<open>
  \<open>Some ty\<close> is the return value 0 with \<open>*type\<close> set to \<open>ty\<close> (\<open>END\<close> at the end of the
  file), \<open>None\<close> the return value -1. After a name that is followed by a blank the
  code overwrites the blank with \<open>NUL\<close> and then finds no \<open>']'\<close> in its place.
\<close>

definition section_name ::
  "(string \<times> itype) list \<Rightarrow> char list \<Rightarrow> nat \<Rightarrow> fault + (itype option \<times> char list)" where
  "section_name iftypes buf p =
     thenf (skip_blank buf (Suc p)) (\<lambda>sptr.
       if buf ! sptr = NUL \<or> buf ! sptr = CHR 0x0A then Inr (None, buf)
       else thenf (scan_name buf sptr) (\<lambda>r.
              case r of
                None \<Rightarrow> Inr (None, buf)
              | Some p1 \<Rightarrow>
                  if buf ! p1 = CHR '']''
                  then (let buf1 = buf[p1 := NUL]
                        in thenf (skip_blank buf1 (Suc (Suc p1))) (\<lambda>p2.
                             if buf1 ! p2 \<noteq> NUL \<and> buf1 ! p2 \<noteq> CHR ''#'' \<and> buf1 ! p2 \<noteq> CHR 0x0A
                             then Inr (None, buf1)
                             else (let ttype = name2type iftypes (cstr buf1 sptr)
                                   in Inr (if ttype = END then None else Some ttype, buf1))))
                  else Inr (None, buf[p1 := NUL])))"

definition get_interface_section ::
  "(string \<times> itype) list \<Rightarrow> char list \<Rightarrow> FILE \<Rightarrow> nat \<Rightarrow>
     fault + (itype option \<times> char list \<times> FILE \<times> nat)" where
  "get_interface_section iftypes buf fp line =
     thenf (find_bracket buf fp line 0) (\<lambda>(start, buf1, fp1, line1).
       case start of
         Section_eof \<Rightarrow> Inr (Some END, buf1, fp1, line1)
       | Section_error \<Rightarrow> Inr (None, buf1, fp1, line1)
       | Bracket p \<Rightarrow>
           thenf (section_name iftypes buf1 p) (\<lambda>(r, buf2). Inr (r, buf2, fp1, line1)))"

subsection \<open>Options of an interface\<close>

text \<open>
  \<open>add_common_opt\<close> returns 0 when it has set the direction, -2 for a direction it
  does not know, and 1 for any other variable. \<open>add_option\<close> appends the pair to the
  options of the interface; a failing allocation is not modelled.
\<close>

definition add_common_opt :: "string \<Rightarrow> string \<Rightarrow> iface \<Rightarrow> int \<times> iface" where
  "add_common_opt var val ifp =
     (if strcasecmp0 var ''direction''
      then (if strcasecmp0 val ''in'' then (0, ifp\<lparr>direction := IN\<rparr>)
            else if strcasecmp0 val ''out'' then (0, ifp\<lparr>direction := OUT\<rparr>)
            else if strcasecmp0 val ''both'' then (0, ifp\<lparr>direction := BOTH\<rparr>)
            else (- 2, ifp))
      else (1, ifp))"

definition add_option :: "string \<Rightarrow> string \<Rightarrow> iface \<Rightarrow> iface" where
  "add_option var val ifp = ifp\<lparr>options := options ifp @ [(var, val)]\<rparr>"

text \<open>
  An interface structure after \<open>memset\<close> to zero; the enumerator of \<open>enum itype\<close> with
  the value 0 (kplex.h) is the parameter \<open>type0\<close>. The direction is set to \<open>NONE\<close> by
  the two parsers right after.
\<close>

definition zero_iface :: "itype \<Rightarrow> iface" where
  "zero_iface type0 = \<lparr>tid = 0, pair = None, direction = NONE, iftype = type0, info = None,
                       options = [], ifq = None\<rparr>"

subsection \<open>get_config\<close>

lemma fgets_more: "fgets buf fp = (True, buf1, fp1) \<Longrightarrow> length (fst fp1) < length (fst fp)"
  by (auto simp: fgets_def split: list.splits)

lemma fgets_none: "fgets buf fp = (False, buf1, fp1) \<Longrightarrow> fst fp = [] \<and> fst fp1 = [] \<and> buf1 = buf"
  by (auto simp: fgets_def split: list.splits)

lemma fgets_length: "fgets buf fp = (ok, buf1, fp1) \<Longrightarrow> length buf1 = length buf"
  by (auto simp: fgets_def split: list.splits)

lemma next_config_line_lines:
  "next_config_line buf fp line = Inr (start, buf1, fp1, line1) \<Longrightarrow>
   (start = At_eof \<longrightarrow> fst fp1 = []) \<and> (start \<noteq> At_eof \<longrightarrow> length (fst fp1) < length (fst fp))"
proof (induction buf fp line rule: next_config_line.induct)
  case (1 buf fp line)
  note prem = "1.prems"[unfolded next_config_line.simps[of buf fp line]]
  obtain ok b1 f1 where f: "fgets buf fp = (ok, b1, f1)" by (cases "fgets buf fp") auto
  show ?case
  proof (cases ok)
    case False
    with f prem fgets_none[of buf fp b1 f1] show ?thesis by auto
  next
    case True
    with f have m: "length (fst f1) < length (fst fp)" by (simp add: fgets_more)
    from prem f True obtain p where sk: "skip_blank b1 0 = Inr p"
      by (cases "skip_blank b1 0") auto
    show ?thesis
    proof (cases "b1 ! p = CHR ''#'' \<or> b1 ! p = CHR 0x0A \<or> b1 ! p = NUL")
      case again: True
      with prem f True sk
      have r: "next_config_line b1 f1 (line + 1) = Inr (start, buf1, fp1, line1)" by auto
      from "1.IH"[OF f[symmetric] _ _ sk again r] True m show ?thesis by auto
    next
      case False
      with prem f True sk m show ?thesis by (auto split: if_splits)
    qed
  qed
qed

definition starts_nul :: "char list \<Rightarrow> bool" where
  "starts_nul buf = (case buf of [] \<Rightarrow> True | c # cs \<Rightarrow> c = NUL)"

lemma next_config_lines:
  assumes "next_config buf fp line = Inr (r, buf1, fp1, line1)"
  shows "length (fst fp1) \<le> length (fst fp)"
    and "r = Var_val var val \<Longrightarrow> length (fst fp1) < length (fst fp)"
    and "r = Var_null \<Longrightarrow> length (fst fp1) < length (fst fp) \<or> (fst fp1 = [] \<and> starts_nul buf1)"
proof -
  from assms obtain start b f l where n: "next_config_line buf fp line = Inr (start, b, f, l)"
    by (cases "next_config_line buf fp line") (auto simp: next_config_def)
  note c = next_config_line_lines[OF n]
  have fp1: "fp1 = f" using assms n
    by (cases start) (auto simp: next_config_def thenf_def split: if_splits sum.splits)
  show "length (fst fp1) \<le> length (fst fp)" using c fp1 by (cases start) auto
  show "length (fst fp1) < length (fst fp)" if "r = Var_val var val"
    using that assms n c fp1
    by (cases start) (auto simp: next_config_def split: if_splits)
  show "length (fst fp1) < length (fst fp) \<or> (fst fp1 = [] \<and> starts_nul buf1)" if "r = Var_null"
  proof (cases start)
    case At_eof
    with assms n that have "buf1 = b[0 := NUL]" by (auto simp: next_config_def split: if_splits)
    then have "starts_nul buf1" by (cases b) (simp_all add: starts_nul_def)
    with c fp1 At_eof show ?thesis by simp
  next
    case At_header
    with c fp1 show ?thesis by simp
  next
    case (At_body p)
    with c fp1 show ?thesis by simp
  qed
qed

text \<open>
  The loop of \<open>get_config\<close>; \<open>None\<close> is the \<open>NULL\<close> it returns after a syntax error or an
  unknown direction.
\<close>

function get_config_loop ::
  "iface \<Rightarrow> char list \<Rightarrow> FILE \<Rightarrow> nat \<Rightarrow> fault + (iface option \<times> char list \<times> FILE \<times> nat)" where
  "get_config_loop ifp buf fp line =
     (case next_config buf fp line of
        Inl e \<Rightarrow> Inl e
      | Inr (Syntax_error, buf1, fp1, line1) \<Rightarrow> Inr (None, buf1, fp1, line1)
      | Inr (Var_null, buf1, fp1, line1) \<Rightarrow> Inr (Some ifp, buf1, fp1, line1)
      | Inr (Var_val var val, buf1, fp1, line1) \<Rightarrow>
          (case add_common_opt var val ifp of
             (ret, ifp1) \<Rightarrow>
               if ret = 0 then get_config_loop ifp1 buf1 fp1 line1
               else if ret < 0 then Inr (None, buf1, fp1, line1)
               else get_config_loop (add_option var val ifp1) buf1 fp1 line1))"
  by pat_completeness auto
termination
  by (relation "measure (\<lambda>(ifp, buf, fp, line). length (fst fp))")
     (auto dest: next_config_lines(2))

text \<open>
  The values that \<open>add_common_opt\<close> takes for a direction, and the pairs by which it
  sets one: the variable is \<open>direction\<close> and the value \<open>in\<close>, \<open>out\<close> or \<open>both\<close>, in any
  case of letters.
\<close>

definition valid_direction :: "string \<Rightarrow> bool" where
  "valid_direction val = (strcasecmp0 val ''in'' \<or> strcasecmp0 val ''out'' \<or> strcasecmp0 val ''both'')"

definition sets_direction :: "string \<Rightarrow> string \<Rightarrow> bool" where
  "sets_direction var val = (strcasecmp0 var ''direction'' \<and> valid_direction val)"

text \<open>
  Whether the body lines from here to the end of the section, read as \<open>next_config\<close>
  reads them, have a line that sets a direction. A section without a \<open>direction\<close> key
  has none.
\<close>

function has_direction_line :: "char list \<Rightarrow> FILE \<Rightarrow> nat \<Rightarrow> bool" where
  "has_direction_line buf fp line =
     (case next_config buf fp line of
        Inr (Var_val var val, buf1, fp1, line1) \<Rightarrow>
          sets_direction var val \<or> has_direction_line buf1 fp1 line1
      | _ \<Rightarrow> False)"
  by pat_completeness auto
termination
  by (relation "measure (\<lambda>(buf, fp, line). length (fst fp))")
     (auto dest: next_config_lines(2))

declare has_direction_line.simps [simp del]

definition get_config ::
  "itype \<Rightarrow> char list \<Rightarrow> FILE \<Rightarrow> nat \<Rightarrow> fault + (iface option \<times> char list \<times> FILE \<times> nat)" where
  "get_config type0 buf fp line = get_config_loop ((zero_iface type0)\<lparr>direction := NONE\<rparr>) buf fp line"



declare get_config_loop.simps [simp del]

subsection \<open>parse_file\<close>

lemma find_bracket_lines:
  "find_bracket buf fp line p = Inr (start, buf1, fp1, line1) \<Longrightarrow>
   length (fst fp1) \<le> length (fst fp) \<and>
   (start = Bracket k \<longrightarrow>
      length (fst fp1) < length (fst fp) \<or>
      (p < length buf \<and> (buf ! p = CHR ''['' \<or> buf ! p = CHR '' '' \<or> buf ! p = CHR 0x09)))"
proof (induction buf fp line p rule: find_bracket.induct)
  case (1 buf fp line p)
  note prem = "1.prems"[unfolded find_bracket.simps[of buf fp line p]]
  from prem have pl: "p < length buf" by (auto split: if_splits)
  show ?case
  proof (cases "buf ! p = CHR ''[''")
    case True
    with prem pl show ?thesis by simp
  next
    case nb: False
    show ?thesis
    proof (cases "buf ! p = CHR '' '' \<or> buf ! p = CHR 0x09")
      case True
      with prem pl nb have "find_bracket buf fp line (Suc p) = Inr (start, buf1, fp1, line1)"
        by (auto split: if_splits)
      from "1.IH"(1)[OF pl nb True this] pl True show ?thesis by auto
    next
      case nbl: False
      show ?thesis
      proof (cases "buf ! p = CHR 0x0A \<or> buf ! p = CHR ''#'' \<or> buf ! p = NUL")
        case False
        with prem pl nb nbl show ?thesis by auto
      next
        case eol: True
        obtain ok b1 f1 where f: "fgets buf fp = (ok, b1, f1)" by (cases "fgets buf fp") auto
        show ?thesis
        proof (cases ok)
          case False
          with f prem pl nb nbl eol fgets_none[of buf fp b1 f1] show ?thesis
            by (auto split: if_splits)
        next
          case True
          with f have m: "length (fst f1) < length (fst fp)" by (simp add: fgets_more)
          from prem pl nb nbl eol f True
          have r: "find_bracket b1 f1 (line + 1) 0 = Inr (start, buf1, fp1, line1)" by auto
          from "1.IH"(2)[OF pl nb nbl eol f[symmetric] _ _ r] True m show ?thesis by auto
        qed
      qed
    qed
  qed
qed

lemma get_interface_section_lines:
  assumes "get_interface_section iftypes buf fp line = Inr (r, buf1, fp1, line1)"
  shows "length (fst fp1) \<le> length (fst fp)"
    and "r = Some ty \<Longrightarrow> ty \<noteq> END \<Longrightarrow> length (fst fp1) < length (fst fp) \<or> \<not> starts_nul buf"
proof -
  from assms obtain start b f l where fb: "find_bracket buf fp line 0 = Inr (start, b, f, l)"
    by (cases "find_bracket buf fp line 0") (auto simp: get_interface_section_def)
  have fp1: "fp1 = f" using assms fb
    by (cases start) (auto simp: get_interface_section_def thenf_def split: sum.splits)
  from find_bracket_lines[OF fb] fp1 show "length (fst fp1) \<le> length (fst fp)" by simp
  show "length (fst fp1) < length (fst fp) \<or> \<not> starts_nul buf" if "r = Some ty" "ty \<noteq> END"
  proof (cases start)
    case (Bracket k)
    from find_bracket_lines[OF fb, of k] Bracket fp1
    have "length (fst fp1) < length (fst fp) \<or>
      (0 < length buf \<and> (buf ! 0 = CHR ''['' \<or> buf ! 0 = CHR '' '' \<or> buf ! 0 = CHR 0x09))" by simp
    then show ?thesis by (cases buf) (auto simp: starts_nul_def NUL_def)
  next
    case Section_eof
    with assms fb that show ?thesis by (simp add: get_interface_section_def)
  next
    case Section_error
    with assms fb that show ?thesis by (simp add: get_interface_section_def)
  qed
qed

lemma get_config_loop_lines:
  "get_config_loop ifp buf fp line = Inr (Some ifp', buf1, fp1, line1) \<Longrightarrow>
   length (fst fp1) < length (fst fp) \<or> (fst fp1 = [] \<and> starts_nul buf1)"
proof (induction ifp buf fp line rule: get_config_loop.induct)
  case (1 ifp buf fp line)
  note prem = "1.prems"[unfolded get_config_loop.simps[of ifp buf fp line]]
  from prem obtain r b f l where n: "next_config buf fp line = Inr (r, b, f, l)"
    by (cases "next_config buf fp line") auto
  show ?case
  proof (cases r)
    case Var_null
    with prem n next_config_lines(3)[OF n] show ?thesis by auto
  next
    case Syntax_error
    with prem n show ?thesis by simp
  next
    case (Var_val var val)
    from next_config_lines(2)[OF n Var_val] have m: "length (fst f) < length (fst fp)" .
    obtain ret ifp1 where a: "add_common_opt var val ifp = (ret, ifp1)"
      by (cases "add_common_opt var val ifp") auto
    show ?thesis
    proof (cases "ret = 0")
      case True
      with prem n Var_val a
      have "get_config_loop ifp1 b f l = Inr (Some ifp', buf1, fp1, line1)" by simp
      from "1.IH"(1)[OF n refl Var_val refl refl a[symmetric] True this] m
      show ?thesis by auto
    next
      case False
      with prem n Var_val a have pos: "\<not> ret < 0"
        and "get_config_loop (add_option var val ifp1) b f l = Inr (Some ifp', buf1, fp1, line1)"
        by (auto split: if_splits)
      from "1.IH"(2)[OF n refl Var_val refl refl a[symmetric] False pos this(2)] m
      show ?thesis by auto
    qed
  qed
qed

text \<open>
  \<open>get_default_global\<close> assigns \<open>type\<close> and \<open>options\<close> of a fresh structure; the other
  members keep what \<open>malloc\<close> left, the parameter \<open>uninit\<close>.
\<close>

definition get_default_global :: "iface \<Rightarrow> iface" where
  "get_default_global uninit = uninit\<lparr>iftype := GLOBAL, options := []\<rparr>"

text \<open>
  The end of the loop body of \<open>parse_file\<close>: the section gets its type; a global
  section goes to the head of the list, any other section must have a direction and
  goes to the end. \<open>lineerror\<close> ends the program with exit status 1.
\<close>

definition link_section :: "itype \<Rightarrow> iface \<Rightarrow> iface list \<Rightarrow> stop + iface list" where
  "link_section ty ifp list =
     (if ty = GLOBAL then Inr (ifp\<lparr>iftype := ty\<rparr> # list)
      else if direction ifp = NONE then Inl (Exit 1)
      else Inr (list @ [ifp\<lparr>iftype := ty\<rparr>]))"

definition file_left :: "char list \<Rightarrow> FILE \<Rightarrow> nat" where
  "file_left buf fp = 2 * length (fst fp) + (if starts_nul buf then 0 else 1)"

lemma parse_file_decreases:
  assumes g: "get_interface_section iftypes buf fp line = Inr (Some ty, buf1, fp1, line1)"
    and e: "ty \<noteq> END"
    and c: "get_config type0 buf1 fp1 line1 = Inr (Some ifp, buf2, fp2, line2)"
  shows "file_left buf2 fp2 < file_left buf fp"
proof -
  from get_interface_section_lines[OF g] e
  have a: "length (fst fp1) \<le> length (fst fp)"
    "length (fst fp1) < length (fst fp) \<or> \<not> starts_nul buf" by simp_all
  from get_config_loop_lines[OF c[unfolded get_config_def]]
  have b: "length (fst fp2) < length (fst fp1) \<or> (fst fp2 = [] \<and> starts_nul buf2)" .
  from a b show ?thesis by (auto simp: file_left_def)
qed

function parse_file_loop ::
  "(string \<times> itype) list \<Rightarrow> itype \<Rightarrow> iface \<Rightarrow> iface list \<Rightarrow> char list \<Rightarrow> FILE \<Rightarrow> nat \<Rightarrow>
     stop + iface list" where
  "parse_file_loop iftypes type0 uninit list buf fp line =
     (case get_interface_section iftypes buf fp line of
        Inl e \<Rightarrow> Inl (Crash e)
      | Inr (None, buf1, fp1, line1) \<Rightarrow> Inl (Exit 1)
      | Inr (Some ty, buf1, fp1, line1) \<Rightarrow>
          if ty = END
          then Inr (if list = [] \<or> iftype (hd list) \<noteq> GLOBAL
                    then get_default_global uninit # list else list)
          else if ty = GLOBAL \<and> list \<noteq> [] \<and> iftype (hd list) = GLOBAL then Inl (Exit 1)
          else (case get_config type0 buf1 fp1 line1 of
                  Inl e \<Rightarrow> Inl (Crash e)
                | Inr (None, buf2, fp2, line2) \<Rightarrow> Inl (Exit 1)
                | Inr (Some ifp, buf2, fp2, line2) \<Rightarrow>
                    (case link_section ty ifp list of
                       Inl e \<Rightarrow> Inl e
                     | Inr list1 \<Rightarrow>
                         parse_file_loop iftypes type0 uninit list1 buf2 fp2 line2)))"
  by pat_completeness auto
termination
  apply (relation "measure (\<lambda>(iftypes, type0, uninit, list, buf, fp, line). file_left buf fp)")
   apply simp
  apply (simp only: in_measure prod.case)
  apply clarify
  apply (rule parse_file_decreases)
    apply assumption
   apply assumption
  apply assumption
  done

declare parse_file_loop.simps [simp del]














subsection \<open>parse_arg\<close>













section \<open>Properties of the sentence queue\<close>

lemma chain_upd: "t \<notin> set xs \<Longrightarrow> chain (h[t := v]) p xs = chain h p xs"
  by (induction xs arbitrary: p) auto

lemma chain_unique: "chain h p xs \<Longrightarrow> chain h p ys \<Longrightarrow> xs = ys"
proof (induction xs arbitrary: p ys)
  case Nil
  then show ?case by (cases ys) auto
next
  case (Cons x xs)
  then show ?case by (cases ys) auto
qed

lemma chain_walk: "chain h p xs \<Longrightarrow> length xs \<le> n \<Longrightarrow> walk n h p = xs"
proof (induction xs arbitrary: p n)
  case Nil
  then show ?case by (cases n) auto
next
  case (Cons x xs)
  then show ?case by (cases n) auto
qed

lemma chain_bound: "chain h p xs \<Longrightarrow> set xs \<subseteq> {..<length h}"
  by (induction xs arbitrary: p) auto

lemma chain_snoc:
  "chain h p xs \<Longrightarrow> xs \<noteq> [] \<Longrightarrow> distinct xs \<Longrightarrow> t \<notin> set xs \<Longrightarrow> t < length h \<Longrightarrow>
   snext (h ! t) = None \<Longrightarrow>
   chain (h[last xs := (h ! last xs)\<lparr>snext := Some t\<rparr>]) p (xs @ [t])"
proof (induction xs arbitrary: p)
  case Nil
  then show ?case by simp
next
  case (Cons x xs)
  show ?case
  proof (cases "xs = []")
    case True
    with Cons.prems show ?thesis by auto
  next
    case False
    then have "last xs \<in> set xs" by simp
    with Cons.prems have "last xs \<noteq> x" by auto
    with Cons False show ?thesis by auto
  qed
qed

lemma list_all_upd: "list_all P h \<Longrightarrow> P v \<Longrightarrow> list_all P (h[i := v])"
proof (induction h arbitrary: i)
  case Nil
  then show ?case by simp
next
  case (Cons a h)
  then show ?case by (cases i) auto
qed

lemma list_all_nth: "list_all P h \<Longrightarrow> i < length h \<Longrightarrow> P (h ! i)"
  by (simp add: list_all_length)

lemma copy_ok:
  assumes "length (data d) = senmax" "len u \<le> senmax" "len u \<le> length (data u)"
  shows "senblk_copy d u = Inr (d\<lparr>len := len u, src := src u, snext := None,
                      data := take (len u) (data u) @ drop (len u) (data d)\<rparr>)"
  using assms by (simp add: senblk_copy_def)

lemma unit_of_copy:
  "len u \<le> length (data u) \<Longrightarrow>
   unit_of (d\<lparr>len := len u, src := src u, snext := None,
               data := take (len u) (data u) @ drop (len u) (data d)\<rparr>) = unit_of u"
  by (simp add: unit_of_def)

lemma unit_of_snext [simp]: "unit_of (s\<lparr>snext := p\<rparr>) = unit_of s"
  by (simp add: unit_of_def)

lemma rot_distinct: "distinct (t # fl @ ql @ held) \<Longrightarrow> distinct (fl @ (ql @ [t]) @ held)"
  by auto

lemma rot_set: "set (fl @ (ql @ [t]) @ held) = set (t # fl @ ql @ held)"
  by auto

lemma q_invI:
  "chain (base q) (free q) fl \<Longrightarrow> chain (base q) (qhead q) ql \<Longrightarrow>
   distinct (fl @ ql @ held) \<Longrightarrow> set (fl @ ql @ held) = {..<length (base q)} \<Longrightarrow>
   qtail q = (if ql = [] then None else Some (last ql)) \<Longrightarrow> q_inv q fl ql held"
  by (simp add: q_inv_def)

lemma push_free:
  assumes inv: "q_inv q (t # fl) ql held" and dat: "data_ok senmax q"
    and u: "len u \<le> senmax" "len u \<le> length (data u)"
  shows "\<exists>q'. push_senblk (Some u) q = Inr q' \<and> q_inv q' fl (ql @ [t]) held \<and> data_ok senmax q'
           \<and> cont q' (ql @ [t]) = cont q ql @ [unit_of u] \<and> active q' = active q
           \<and> length (base q') = length (base q)"
proof -
  let ?h = "base q"
  let ?d = "(?h ! t)\<lparr>len := len u, src := src u, snext := None,
                      data := take (len u) (data u) @ drop (len u) (data (?h ! t))\<rparr>"
  let ?h1 = "?h[t := ?d]"
  from inv have fr: "free q = Some t" and tb: "t < length ?h"
    and cf: "chain ?h (snext (?h ! t)) fl" and cq: "chain ?h (qhead q) ql"
    and dist: "distinct (t # fl @ ql @ held)"
    and cover: "set (t # fl @ ql @ held) = {..<length ?h}"
    and tl: "qtail q = (if ql = [] then None else Some (last ql))"
    by (auto simp: q_inv_def)
  from dat have dat': "list_all (\<lambda>s. length (data s) = senmax) ?h" by (simp add: data_ok_def)
  from list_all_nth[OF dat' tb] have dl: "length (data (?h ! t)) = senmax" .
  have ts: "take_slot q = Inr (t, q\<lparr>free := snext (?h ! t)\<rparr>)"
    by (simp add: take_slot_def fr)
  have cp: "senblk_copy (?h ! t) u = Inr ?d" using copy_ok[OF dl u] .
  have push: "push_senblk (Some u) q = Inr (link_tail t (q\<lparr>free := snext (?h ! t), base := ?h1\<rparr>))"
    by (simp add: push_senblk_def ts cp)
  from dist have tnf: "t \<notin> set fl" and tnq: "t \<notin> set ql" by auto
  have cf1: "chain ?h1 (snext (?h ! t)) fl" using cf tnf by (simp add: chain_upd)
  have cq1: "chain ?h1 (qhead q) ql" using cq tnq by (simp add: chain_upd)
  have "length (data ?d) = senmax" using dl u by simp
  from list_all_upd[OF dat', of ?d t, OF this]
  have d1: "list_all (\<lambda>s. length (data s) = senmax) ?h1" .
  show ?thesis
  proof (cases "ql = []")
    case True
    with cq have qh: "qhead q = None" by simp
    from True tl have qt: "qtail q = None" by simp
    let ?q' = "q\<lparr>free := snext (?h ! t), base := ?h1, qtail := Some t, qhead := Some t\<rparr>"
    have lt: "link_tail t (q\<lparr>free := snext (?h ! t), base := ?h1\<rparr>) = ?q'"
      by (simp add: link_tail_def qt qh)
    have "q_inv ?q' fl (ql @ [t]) held"
    proof (rule q_invI)
      show "chain (base ?q') (free ?q') fl" using cf1 by simp
      show "chain (base ?q') (qhead ?q') (ql @ [t])" using True tb by simp
      show "distinct (fl @ (ql @ [t]) @ held)" using dist by (rule rot_distinct)
      show "set (fl @ (ql @ [t]) @ held) = {..<length (base ?q')}"
        using cover by (simp only: rot_set) simp
      show "qtail ?q' = (if ql @ [t] = [] then None else Some (last (ql @ [t])))" by simp
    qed
    moreover have "data_ok senmax ?q'" using d1 by (simp add: data_ok_def)
    moreover have "cont ?q' (ql @ [t]) = cont q ql @ [unit_of u]"
      using True tb u by (simp add: cont_def unit_of_copy)
    ultimately show ?thesis using push lt by simp
  next
    case False
    then obtain x where qh: "qhead q = Some x" using cq by (cases ql) auto
    from False tl have qt: "qtail q = Some (last ql)" by simp
    let ?l = "last ql"
    let ?h2 = "?h1[?l := (?h1 ! ?l)\<lparr>snext := Some t\<rparr>]"
    let ?q' = "q\<lparr>free := snext (?h ! t), base := ?h2, qtail := Some t\<rparr>"
    have lt: "link_tail t (q\<lparr>free := snext (?h ! t), base := ?h1\<rparr>) = ?q'"
      by (simp add: link_tail_def qt qh)
    from False have lin: "?l \<in> set ql" by simp
    with dist have lnf: "?l \<notin> set fl" and lnt: "?l \<noteq> t" by auto
    from dist have dq: "distinct ql" by simp
    have "snext (?h1 ! t) = None" using tb by simp
    from chain_snoc[OF cq1 False dq tnq _ this] tb
    have cq2: "chain ?h2 (qhead q) (ql @ [t])" by simp
    have cf2: "chain ?h2 (snext (?h ! t)) fl" using cf1 lnf by (simp add: chain_upd)
    have "q_inv ?q' fl (ql @ [t]) held"
    proof (rule q_invI)
      show "chain (base ?q') (free ?q') fl" using cf2 by simp
      show "chain (base ?q') (qhead ?q') (ql @ [t])" using cq2 by simp
      show "distinct (fl @ (ql @ [t]) @ held)" using dist by (rule rot_distinct)
      show "set (fl @ (ql @ [t]) @ held) = {..<length (base ?q')}"
        using cover by (simp only: rot_set) simp
      show "qtail ?q' = (if ql @ [t] = [] then None else Some (last (ql @ [t])))" by simp
    qed
    moreover have "data_ok senmax ?q'"
    proof -
      have lb: "?l < length ?h1" using chain_bound[OF cq] lin by auto
      from list_all_nth[OF d1 lb]
      have "length (data ((?h1 ! ?l)\<lparr>snext := Some t\<rparr>)) = senmax" by simp
      from list_all_upd[OF d1, of "(?h1 ! ?l)\<lparr>snext := Some t\<rparr>" ?l, OF this]
      show ?thesis by (simp add: data_ok_def)
    qed
    moreover have "cont ?q' (ql @ [t]) = cont q ql @ [unit_of u]"
    proof -
      have "\<And>y. y \<in> set ql \<Longrightarrow> unit_of (?h2 ! y) = unit_of (?h ! y)"
      proof -
        fix y assume y: "y \<in> set ql"
        then have yt: "y \<noteq> t" using tnq by auto
        have yb: "y < length ?h" using chain_bound[OF cq] y by auto
        show "unit_of (?h2 ! y) = unit_of (?h ! y)"
          using yt yb by (cases "y = ?l") auto
      qed
      moreover have "unit_of (?h2 ! t) = unit_of u"
        using lnt tb u by (simp add: unit_of_copy)
      ultimately show ?thesis by (simp add: cont_def)
    qed
    ultimately show ?thesis using push lt by simp
  qed
qed

lemma rot_distinct0: "distinct (t # ql @ held) \<Longrightarrow> distinct ([] @ (ql @ [t]) @ held)"
  by auto

lemma rot_set0: "set ([] @ (ql @ [t]) @ held) = set ([] @ (t # ql) @ held)"
  by auto

lemma push_steal:
  assumes inv: "q_inv q [] (t # ql) held" and ne: "ql \<noteq> []" and dat: "data_ok senmax q"
    and u: "len u \<le> senmax" "len u \<le> length (data u)"
  shows "\<exists>q'. push_senblk (Some u) q = Inr q' \<and> q_inv q' [] (ql @ [t]) held \<and> data_ok senmax q'
           \<and> cont q' (ql @ [t]) = cont q ql @ [unit_of u] \<and> active q' = active q
           \<and> length (base q') = length (base q)"
proof -
  let ?h = "base q"
  let ?d = "(?h ! t)\<lparr>len := len u, src := src u, snext := None,
                      data := take (len u) (data u) @ drop (len u) (data (?h ! t))\<rparr>"
  let ?h1 = "?h[t := ?d]"
  let ?l = "last ql"
  let ?h2 = "?h1[?l := (?h1 ! ?l)\<lparr>snext := Some t\<rparr>]"
  let ?q' = "q\<lparr>qhead := snext (?h ! t), base := ?h2, qtail := Some t\<rparr>"
  from inv have fr: "free q = None" and qh: "qhead q = Some t" and tb: "t < length ?h"
    and cq: "chain ?h (snext (?h ! t)) ql"
    and dist: "distinct (t # ql @ held)"
    and cover: "set ([] @ (t # ql) @ held) = {..<length ?h}"
    and tl: "qtail q = Some (last (t # ql))"
    by (auto simp: q_inv_def)
  from tl ne have qt: "qtail q = Some ?l" by simp
  from ne cq obtain x where nx: "snext (?h ! t) = Some x" by (cases ql) auto
  from dat have dat': "list_all (\<lambda>s. length (data s) = senmax) ?h" by (simp add: data_ok_def)
  from list_all_nth[OF dat' tb] have dl: "length (data (?h ! t)) = senmax" .
  have ts: "take_slot q = Inr (t, q\<lparr>qhead := snext (?h ! t)\<rparr>)"
    by (simp add: take_slot_def fr qh)
  have cp: "senblk_copy (?h ! t) u = Inr ?d" using copy_ok[OF dl u] .
  have lt: "link_tail t (q\<lparr>qhead := snext (?h ! t), base := ?h1\<rparr>) = ?q'"
    by (simp add: link_tail_def qt nx)
  have push: "push_senblk (Some u) q = Inr ?q'"
    by (simp add: push_senblk_def ts cp lt)
  from dist have tnq: "t \<notin> set ql" and dq: "distinct ql" by auto
  from ne have lin: "?l \<in> set ql" by simp
  with tnq have lnt: "?l \<noteq> t" by auto
  have cq1: "chain ?h1 (snext (?h ! t)) ql" using cq tnq by (simp add: chain_upd)
  have "snext (?h1 ! t) = None" using tb by simp
  from chain_snoc[OF cq1 ne dq tnq _ this] tb
  have cq2: "chain ?h2 (snext (?h ! t)) (ql @ [t])" by simp
  have "length (data ?d) = senmax" using dl u by simp
  from list_all_upd[OF dat', of ?d t, OF this]
  have d1: "list_all (\<lambda>s. length (data s) = senmax) ?h1" .
  have "q_inv ?q' [] (ql @ [t]) held"
  proof (rule q_invI)
    show "chain (base ?q') (free ?q') []" using fr by simp
    show "chain (base ?q') (qhead ?q') (ql @ [t])" using cq2 by simp
    show "distinct ([] @ (ql @ [t]) @ held)" using dist by (rule rot_distinct0)
    show "set ([] @ (ql @ [t]) @ held) = {..<length (base ?q')}"
      using cover by (simp only: rot_set0) simp
    show "qtail ?q' = (if ql @ [t] = [] then None else Some (last (ql @ [t])))" by simp
  qed
  moreover have "data_ok senmax ?q'"
  proof -
    have lb: "?l < length ?h1" using chain_bound[OF cq] lin by auto
    from list_all_nth[OF d1 lb]
    have "length (data ((?h1 ! ?l)\<lparr>snext := Some t\<rparr>)) = senmax" by simp
    from list_all_upd[OF d1, of "(?h1 ! ?l)\<lparr>snext := Some t\<rparr>" ?l, OF this]
    show ?thesis by (simp add: data_ok_def)
  qed
  moreover have "cont ?q' (ql @ [t]) = cont q ql @ [unit_of u]"
  proof -
    have "\<And>y. y \<in> set ql \<Longrightarrow> unit_of (?h2 ! y) = unit_of (?h ! y)"
    proof -
      fix y assume y: "y \<in> set ql"
      then have yt: "y \<noteq> t" using tnq by auto
      have yb: "y < length ?h" using chain_bound[OF cq] y by auto
      show "unit_of (?h2 ! y) = unit_of (?h ! y)"
        using yt yb by (cases "y = ?l") auto
    qed
    moreover have "unit_of (?h2 ! t) = unit_of u"
      using lnt tb u by (simp add: unit_of_copy)
    ultimately show ?thesis by (simp add: cont_def)
  qed
  ultimately show ?thesis using push by simp
qed

lemma next_slot:
  assumes inv: "q_inv q fl (t # ql) held"
  shows "\<exists>q'. next_senblk q = (Slot t, q') \<and> q_inv q' fl ql (t # held) \<and> base q' = base q
           \<and> active q' = active q"
proof -
  let ?h = "base q"
  from inv have cf: "chain ?h (free q) fl" and qh: "qhead q = Some t"
    and cq: "chain ?h (snext (?h ! t)) ql"
    and dist: "distinct (fl @ (t # ql) @ held)"
    and cover: "set (fl @ (t # ql) @ held) = {..<length ?h}"
    and tl: "qtail q = Some (last (t # ql))"
    by (auto simp: q_inv_def)
  let ?q' = "if ql = [] then q\<lparr>qhead := None, qtail := None\<rparr> else q\<lparr>qhead := snext (?h ! t)\<rparr>"
  have nx: "snext (?h ! t) = None \<longleftrightarrow> ql = []" using cq by (cases ql) auto
  have n: "next_senblk q = (Slot t, ?q')"
    using nx by (auto simp: next_senblk_def qh Let_def)
  have "q_inv ?q' fl ql (t # held)"
  proof (rule q_invI)
    show "chain (base ?q') (free ?q') fl" using cf by simp
    show "chain (base ?q') (qhead ?q') ql" using cq by auto
    show "distinct (fl @ ql @ t # held)" using dist by auto
    have "set (fl @ ql @ t # held) = set (fl @ (t # ql) @ held)" by auto
    then show "set (fl @ ql @ t # held) = {..<length (base ?q')}" using cover by simp
    show "qtail ?q' = (if ql = [] then None else Some (last ql))" using tl by simp
  qed
  then show ?thesis using n by simp
qed

lemma free_held:
  assumes inv: "q_inv q fl ql held" and th: "t \<in> set held" and dat: "data_ok senmax q"
  shows "q_inv (senblk_free t q) (t # fl) ql (remove1 t held) \<and> data_ok senmax (senblk_free t q)
           \<and> cont (senblk_free t q) ql = cont q ql \<and> active (senblk_free t q) = active q
           \<and> length (base (senblk_free t q)) = length (base q)"
proof -
  let ?h = "base q"
  let ?h1 = "?h[t := (?h ! t)\<lparr>snext := free q\<rparr>]"
  let ?q' = "senblk_free t q"
  from inv have cf: "chain ?h (free q) fl" and cq: "chain ?h (qhead q) ql"
    and dist: "distinct (fl @ ql @ held)"
    and cover: "set (fl @ ql @ held) = {..<length ?h}"
    and tl: "qtail q = (if ql = [] then None else Some (last ql))"
    by (auto simp: q_inv_def)
  from th dist have tnf: "t \<notin> set fl" and tnq: "t \<notin> set ql" by auto
  from th cover have tb: "t < length ?h" by auto
  have b: "base ?q' = ?h1" and f: "free ?q' = Some t" and h: "qhead ?q' = qhead q"
    and tq: "qtail ?q' = qtail q" and a: "active ?q' = active q"
    by (simp_all add: senblk_free_def)
  have "q_inv ?q' (t # fl) ql (remove1 t held)"
  proof (rule q_invI)
    show "chain (base ?q') (free ?q') (t # fl)" using cf tnf tb by (simp add: b f chain_upd)
    show "chain (base ?q') (qhead ?q') ql" using cq tnq by (simp add: b h chain_upd)
    show "distinct ((t # fl) @ ql @ remove1 t held)" using dist th by auto
    have "set ((t # fl) @ ql @ remove1 t held) = set (fl @ ql @ held)"
      using th dist by auto
    then show "set ((t # fl) @ ql @ remove1 t held) = {..<length (base ?q')}"
      using cover by (simp add: b)
    show "qtail ?q' = (if ql = [] then None else Some (last ql))" using tl by (simp add: tq)
  qed
  moreover have "data_ok senmax ?q'"
  proof -
    from dat have dat': "list_all (\<lambda>s. length (data s) = senmax) ?h" by (simp add: data_ok_def)
    from list_all_nth[OF dat' tb]
    have "length (data ((?h ! t)\<lparr>snext := free q\<rparr>)) = senmax" by simp
    from list_all_upd[OF dat', of "(?h ! t)\<lparr>snext := free q\<rparr>" t, OF this]
    show ?thesis by (simp add: data_ok_def b)
  qed
  moreover have "cont ?q' ql = cont q ql"
  proof -
    have "\<And>y. y \<in> set ql \<Longrightarrow> unit_of (?h1 ! y) = unit_of (?h ! y)"
    proof -
      fix y assume "y \<in> set ql"
      then have "t \<noteq> y" using tnq by auto
      then show "unit_of (?h1 ! y) = unit_of (?h ! y)" by simp
    qed
    then show ?thesis by (simp add: cont_def b)
  qed
  ultimately show ?thesis by (simp add: a b)
qed

lemma chain_init:
  "i \<le> sz \<Longrightarrow>
   chain (map (\<lambda>i. (zero_senblk senmax)\<lparr>snext := (if i < sz - 1 then Some (i + 1) else None)\<rparr>) [0..<sz])
     (if i < sz then Some i else None) [i..<sz]"
proof (induction "sz - i" arbitrary: i)
  case 0
  then show ?case by simp
next
  case (Suc n)
  then have lt: "i < sz" by simp
  from Suc have "n = sz - Suc i" "Suc i \<le> sz" by auto
  from Suc.hyps(1)[OF this]
  have ih: "chain (map (\<lambda>i. (zero_senblk senmax)\<lparr>snext := (if i < sz - 1 then Some (i + 1) else None)\<rparr>) [0..<sz])
     (if Suc i < sz then Some (Suc i) else None) [Suc i..<sz]" .
  have "(if i < sz - 1 then Some (i + 1) else None) = (if Suc i < sz then Some (Suc i) else None)"
    by auto
  with ih lt show ?case
    by (simp add: upt_conv_Cons[OF lt] less_diff_conv del: upt_Suc split: if_splits)
qed

lemma init_inv:
  assumes "init_q senmax sz = Some q"
  shows "q_inv q [0..<sz] [] [] \<and> data_ok senmax q \<and> active q \<and> length (base q) = sz"
proof -
  from assms have sz: "0 < sz"
    and q: "q = \<lparr>base = map (\<lambda>i. (zero_senblk senmax)
                                  \<lparr>snext := (if i < sz - 1 then Some (i + 1) else None)\<rparr>)
                            [0..<sz],
                 free = Some 0, qhead = None, qtail = None, active = True\<rparr>"
    by (auto simp: init_q_def split: if_splits)
  have "chain (base q) (free q) [0..<sz]"
    using chain_init[of 0 sz senmax] sz by (simp add: q)
  then have "q_inv q [0..<sz] [] []"
    by (simp add: q_inv_def q lessThan_atLeast0)
  moreover have "data_ok senmax q"
    by (simp add: data_ok_def q list_all_iff zero_senblk_def)
  ultimately show ?thesis by (simp add: q)
qed

lemma inv_length:
  assumes "q_inv q fl ql held"
  shows "length fl + length ql + length held = length (base q)"
proof -
  from assms have d: "distinct (fl @ ql @ held)" and s: "set (fl @ ql @ held) = {..<length (base q)}"
    by (simp_all add: q_inv_def)
  from distinct_card[OF d] s have "length (fl @ ql @ held) = length (base q)" by simp
  then show ?thesis by simp
qed

lemma inv_read:
  assumes "q_inv q fl ql held"
  shows "free_slots q = fl" and "enqueued q = ql" and "contents q = cont q ql"
proof -
  from inv_length[OF assms] have l: "length fl \<le> length (base q)" "length ql \<le> length (base q)"
    by auto
  from assms have c: "chain (base q) (free q) fl" "chain (base q) (qhead q) ql"
    by (simp_all add: q_inv_def)
  show "free_slots q = fl" using chain_walk[OF c(1) l(1)] by (simp add: free_slots_def)
  show e: "enqueued q = ql" using chain_walk[OF c(2) l(2)] by (simp add: enqueued_def)
  show "contents q = cont q ql" by (simp add: contents_def cont_def e)
qed

lemma inv_safe:
  assumes "q_inv q fl ql held"
  shows "push_safe q \<longleftrightarrow> fl \<noteq> [] \<or> 2 \<le> length ql"
proof -
  from assms have c: "chain (base q) (free q) fl" "chain (base q) (qhead q) ql"
    and d: "distinct ql" and t: "qtail q = (if ql = [] then None else Some (last ql))"
    by (simp_all add: q_inv_def)
  have f: "free q \<noteq> None \<longleftrightarrow> fl \<noteq> []" using c(1) by (cases fl) auto
  have h: "(qhead q \<noteq> None \<and> qhead q \<noteq> qtail q) \<longleftrightarrow> 2 \<le> length ql"
  proof (cases ql)
    case Nil
    with c(2) show ?thesis by simp
  next
    case (Cons x xs)
    with c(2) have qh: "qhead q = Some x" by simp
    show ?thesis
    proof (cases "xs = []")
      case True
      with Cons t qh show ?thesis by simp
    next
      case False
      then have "last xs \<in> set xs" by simp
      with d Cons have "last xs \<noteq> x" by auto
      with False Cons t qh show ?thesis by (cases xs) auto
    qed
  qed
  show ?thesis unfolding push_safe_def using f h by blast
qed

lemma push_safe_inv:
  assumes inv: "q_inv q fl ql held" and dat: "data_ok senmax q" and u: "unit_ok senmax u"
    and safe: "fl \<noteq> [] \<or> 2 \<le> length ql"
  shows "\<exists>q'. push_senblk (Some u) q = Inr q' \<and> data_ok senmax q' \<and> active q' = active q \<and>
           length (base q') = length (base q) \<and>
           (if fl \<noteq> [] then q_inv q' (tl fl) (ql @ [hd fl]) held \<and>
                              cont q' (ql @ [hd fl]) = cont q ql @ [unit_of u]
            else q_inv q' [] (tl ql @ [hd ql]) held \<and>
                 cont q' (tl ql @ [hd ql]) = tl (cont q ql) @ [unit_of u])"
proof (cases fl)
  case (Cons t fl')
  from u have u': "len u \<le> senmax" "len u \<le> length (data u)" by (simp_all add: unit_ok_def)
  from push_free[OF inv[unfolded Cons] dat u'] Cons show ?thesis by auto
next
  case Nil
  with safe have "2 \<le> length ql" by simp
  then obtain t ql' where ql: "ql = t # ql'" and ne: "ql' \<noteq> []"
    by (cases ql) fastforce+
  from u have u': "len u \<le> senmax" "len u \<le> length (data u)" by (simp_all add: unit_ok_def)
  from push_steal[OF inv[unfolded Nil ql] ne dat u']
  obtain q' where p: "push_senblk (Some u) q = Inr q'" and i: "q_inv q' [] (ql' @ [t]) held"
    and d: "data_ok senmax q'" and c: "cont q' (ql' @ [t]) = cont q ql' @ [unit_of u]"
    and a: "active q' = active q" and l: "length (base q') = length (base q)" by blast
  have "tl (cont q ql) = cont q ql'" by (simp add: cont_def ql)
  with p i d c a l Nil ql show ?thesis by simp
qed

lemma push_all_inv:
  assumes "q_inv q fl ql []" "data_ok senmax q" "length (base q) = sz" "2 \<le> sz"
    "list_all (unit_ok senmax) us"
  shows "\<exists>q' fl' ql'. push_all us q = Inr q' \<and> q_inv q' fl' ql' [] \<and> data_ok senmax q' \<and>
           length (base q') = sz \<and> active q' = active q \<and>
           cont q' ql' = drop (length ql + length us - sz) (cont q ql @ map unit_of us)"
  using assms
proof (induction us arbitrary: q fl ql)
  case Nil
  from inv_length[OF Nil(1)] Nil(3) have "length ql \<le> sz" by simp
  then have "cont q ql = drop (length ql + length ([]::senblk list) - sz) (cont q ql @ map unit_of [])"
    by simp
  with Nil show ?case by (metis push_all.simps(1))
next
  case (Cons u us)
  from Cons.prems(5) have u: "unit_ok senmax u" and us: "list_all (unit_ok senmax) us" by simp_all
  from inv_length[OF Cons.prems(1)] Cons.prems(3) have len: "length fl + length ql = sz" by simp
  with Cons.prems(4) have safe: "fl \<noteq> [] \<or> 2 \<le> length ql" by (cases fl) auto
  from push_safe_inv[OF Cons.prems(1,2) u safe]
  obtain q1 where p: "push_senblk (Some u) q = Inr q1" and d1: "data_ok senmax q1"
    and a1: "active q1 = active q" and l1: "length (base q1) = length (base q)"
    and r: "if fl \<noteq> [] then q_inv q1 (tl fl) (ql @ [hd fl]) [] \<and>
                              cont q1 (ql @ [hd fl]) = cont q ql @ [unit_of u]
            else q_inv q1 [] (tl ql @ [hd ql]) [] \<and>
                 cont q1 (tl ql @ [hd ql]) = tl (cont q ql) @ [unit_of u]" by blast
  show ?case
  proof (cases "fl = []")
    case False
    with r have i1: "q_inv q1 (tl fl) (ql @ [hd fl]) []"
      and c1: "cont q1 (ql @ [hd fl]) = cont q ql @ [unit_of u]" by simp_all
    from Cons.IH[OF i1 d1 _ Cons.prems(4) us] l1 Cons.prems(3)
    obtain q' fl' ql' where "push_all us q1 = Inr q'" "q_inv q' fl' ql' []" "data_ok senmax q'"
      "length (base q') = sz" "active q' = active q1"
      "cont q' ql' = drop (length (ql @ [hd fl]) + length us - sz) (cont q1 (ql @ [hd fl]) @ map unit_of us)"
      by auto
    then show ?thesis using p a1 c1 by auto
  next
    case True
    with r have i1: "q_inv q1 [] (tl ql @ [hd ql]) []"
      and c1: "cont q1 (tl ql @ [hd ql]) = tl (cont q ql) @ [unit_of u]" by simp_all
    from True len have lq: "length ql = sz" by simp
    with Cons.prems(4) have ne: "ql \<noteq> []" by auto
    then have lc: "cont q ql = hd (cont q ql) # tl (cont q ql)" by (simp add: cont_def)
    from Cons.IH[OF i1 d1 _ Cons.prems(4) us] l1 Cons.prems(3)
    obtain q' fl' ql' where "push_all us q1 = Inr q'" "q_inv q' fl' ql' []" "data_ok senmax q'"
      "length (base q') = sz" "active q' = active q1"
      and c': "cont q' ql' = drop (length (tl ql @ [hd ql]) + length us - sz)
                 (cont q1 (tl ql @ [hd ql]) @ map unit_of us)"
      by auto
    moreover have "drop (length (tl ql @ [hd ql]) + length us - sz)
                 (cont q1 (tl ql @ [hd ql]) @ map unit_of us)
        = drop (length ql + length (u # us) - sz) (cont q ql @ map unit_of (u # us))"
    proof -
      have "length (tl ql @ [hd ql]) = sz" using lq ne by (cases ql) auto
      then have n1: "length (tl ql @ [hd ql]) + length us - sz = length us" by simp
      have n2: "length ql + length (u # us) - sz = Suc (length us)" using lq by simp
      have "drop (Suc (length us)) (cont q ql @ map unit_of (u # us))
          = drop (Suc (length us)) (hd (cont q ql) # (tl (cont q ql) @ unit_of u # map unit_of us))"
        using lc by (metis append_Cons list.simps(9))
      also have "\<dots> = drop (length us) (tl (cont q ql) @ unit_of u # map unit_of us)"
        by (simp only: drop_Suc_Cons)
      finally show ?thesis by (simp only: n1 n2 c1) simp
    qed
    ultimately show ?thesis using p a1 by auto
  qed
qed

lemma push_nil: "push_senblk None q = Inr (q\<lparr>active := False\<rparr>)"
  by (simp add: push_senblk_def)

lemma step_inv:
  assumes inv: "q_inv q fl ql held" and dat: "data_ok senmax q" and ok: "op_ok senmax a (q, held, outs)"
  shows "\<exists>q' fl' ql' held' outs'. q_step a (q, held, outs) = Inr (q', held', outs') \<and>
           q_inv q' fl' ql' held' \<and> data_ok senmax q' \<and> length (base q') = length (base q)"
proof (cases a)
  case (Push sptr)
  show ?thesis
  proof (cases sptr)
    case None
    have "q_inv (q\<lparr>active := False\<rparr>) fl ql held" using inv by (simp add: q_inv_def)
    moreover have "data_ok senmax (q\<lparr>active := False\<rparr>)" using dat by (simp add: data_ok_def)
    ultimately show ?thesis using Push None by (auto simp: push_nil)
  next
    case (Some u)
    with Push ok have u: "unit_ok senmax u" and safe: "push_safe q" by simp_all
    from safe inv_safe[OF inv] have "fl \<noteq> [] \<or> 2 \<le> length ql" by simp
    from push_safe_inv[OF inv dat u this]
    obtain q' where p: "push_senblk (Some u) q = Inr q'" and d: "data_ok senmax q'"
      and l: "length (base q') = length (base q)"
      and r: "if fl \<noteq> [] then q_inv q' (tl fl) (ql @ [hd fl]) held \<and>
                              cont q' (ql @ [hd fl]) = cont q ql @ [unit_of u]
            else q_inv q' [] (tl ql @ [hd ql]) held \<and>
                 cont q' (tl ql @ [hd ql]) = tl (cont q ql) @ [unit_of u]" by blast
    from r obtain fl' ql' where "q_inv q' fl' ql' held" by (cases "fl = []") auto
    with p d l Push Some show ?thesis by auto
  qed
next
  case Next
  show ?thesis
  proof (cases ql)
    case Nil
    with inv have "qhead q = None" by (simp add: q_inv_def)
    then have "q_step Next (q, held, outs) =
         Inr (q, held, outs @ [if active q then Blocked else EndOfStream])"
      by (simp add: next_senblk_def)
    with inv dat Next show ?thesis by auto
  next
    case (Cons t ql')
    from next_slot[OF inv[unfolded Cons]]
    obtain q' where n: "next_senblk q = (Slot t, q')" and i: "q_inv q' fl ql' (t # held)"
      and b: "base q' = base q" by blast
    from dat b have "data_ok senmax q'" by (simp add: data_ok_def)
    with n i b Next show ?thesis by auto
  qed
next
  case (Free t)
  with ok have "t \<in> set held" by simp
  from free_held[OF inv this dat] Free show ?thesis by auto
qed

lemma run_inv:
  assumes "q_inv q fl ql held" "data_ok senmax q" "legal senmax ops (q, held, outs)"
  shows "\<exists>q' fl' ql' held' outs'. q_run ops (q, held, outs) = Inr (q', held', outs') \<and>
           q_inv q' fl' ql' held' \<and> data_ok senmax q' \<and> length (base q') = length (base q)"
  using assms
proof (induction ops arbitrary: q fl ql held outs)
  case Nil
  then show ?case by auto
next
  case (Cons a ops)
  from Cons.prems(3) have ok: "op_ok senmax a (q, held, outs)" by simp
  from step_inv[OF Cons.prems(1,2) ok]
  obtain q1 fl1 ql1 held1 outs1 where s: "q_step a (q, held, outs) = Inr (q1, held1, outs1)"
    and i: "q_inv q1 fl1 ql1 held1" and d: "data_ok senmax q1"
    and l: "length (base q1) = length (base q)" by blast
  from Cons.prems(3) s have "legal senmax ops (q1, held1, outs1)" by simp
  from Cons.IH[OF i d this] s l show ?case by auto
qed

text \<open>
  Claim C5, as amended. For a queue made by \<open>init_q\<close> with \<open>size\<close> slots, all slots are
  on the free list and the FIFO is empty; after any sequence of calls that keeps to the
  contract (\<open>legal\<close>) the run has not faulted, free list, FIFO and the slots held by the
  client partition the array, and their numbers add up to \<open>size\<close>. A slot handed out by
  \<open>next_senblk\<close> is on neither list until \<open>senblk_free\<close> returns it.
\<close>

theorem queue_capacity:
  assumes "init_q senmax sz = Some q0" and "legal senmax ops (q0, [], [])"
  shows "free_slots q0 = [0..<sz] \<and> enqueued q0 = [] \<and>
         (\<exists>q held outs. q_run ops (q0, [], []) = Inr (q, held, outs) \<and>
            q_inv q (free_slots q) (enqueued q) held \<and>
            length (free_slots q) + length (enqueued q) + length held = sz)"
proof -
  from init_inv[OF assms(1)] have i: "q_inv q0 [0..<sz] [] []" and d: "data_ok senmax q0"
    and l: "length (base q0) = sz" by simp_all
  from run_inv[OF i d assms(2)]
  obtain q fl ql held outs where r: "q_run ops (q0, [], []) = Inr (q, held, outs)"
    and i': "q_inv q fl ql held" and l': "length (base q) = length (base q0)" by blast
  from inv_read[OF i'] inv_length[OF i'] i' l l'
  have "q_inv q (free_slots q) (enqueued q) held \<and>
            length (free_slots q) + length (enqueued q) + length held = sz" by simp
  with r inv_read(1,2)[OF i] show ?thesis by blast
qed

lemma demo_ok: "unit_ok 4 (demo_unit k)"
  by (simp add: unit_ok_def demo_unit_def)

text \<open>
  The claim as stated counts only the free list and the FIFO: after one push and one
  \<open>next_senblk\<close> on a queue of two slots, one slot is free, none is enqueued and one is
  held by the caller.
\<close>

theorem queue_capacity_counterexample:
  "observe 4 2 [Push (Some (demo_unit 7)), Next] = Some (Inr ([Slot 0], 1, 0, 1))"
  by code_simp

lemma q_fresh_init: "init_q 4 2 = Some q_fresh"
  by code_simp

theorem queue_capacity_witness:
  "init_q 4 2 = Some q_fresh \<and>
   legal 4 [Push (Some (demo_unit 7)), Next, Push None, Free 0] (q_fresh, [], []) \<and>
   free_slots q_fresh = [0..<2] \<and> enqueued q_fresh = [] \<and>
   (\<exists>q held outs. q_run [Push (Some (demo_unit 7)), Next, Push None, Free 0] (q_fresh, [], [])
        = Inr (q, held, outs) \<and>
      q_inv q (free_slots q) (enqueued q) held \<and>
      length (free_slots q) + length (enqueued q) + length held = 2)"
proof -
  have a: "init_q 4 2 = Some q_fresh" by code_simp
  have b: "legal 4 [Push (Some (demo_unit 7)), Next, Push None, Free 0] (q_fresh, [], [])"
    by code_simp
  from queue_capacity[OF a b] a b show ?thesis by simp
qed

text \<open>
  Where a slot is free or at least two units are enqueued (\<open>push_safe\<close>), pushing a
  unit that fits does not fault: with a free slot the first free slot is appended to
  the FIFO, without one the head slot of the FIFO is reused and the oldest unit is
  dropped; the new unit is the last of the FIFO either way. On a fresh queue of
  \<open>size \<ge> 2\<close> slots, after pushing the units \<open>us\<close> with no \<open>next_senblk\<close> in between, the
  FIFO holds the last \<open>size\<close> units of \<open>us\<close> in push order.
\<close>

lemma push_senblk_tail_preserving:
  "(q_inv q fl ql held \<and> data_ok senmax q \<and> unit_ok senmax u \<and> push_safe q \<longrightarrow>
      (\<exists>q'. push_senblk (Some u) q = Inr q' \<and>
         (if free q \<noteq> None
          then free_slots q' = tl fl \<and> enqueued q' = ql @ [hd fl] \<and>
               contents q' = contents q @ [unit_of u]
          else free_slots q' = [] \<and> enqueued q' = tl ql @ [hd ql] \<and>
               contents q' = tl (contents q) @ [unit_of u]) \<and>
         q_inv q' (free_slots q') (enqueued q') held)) \<and>
   (2 \<le> sz \<and> init_q senmax sz = Some q0 \<and> list_all (unit_ok senmax) us \<longrightarrow>
      (\<exists>q. push_all us q0 = Inr q \<and>
         contents q = drop (length us - sz) (map unit_of us) \<and>
         q_inv q (free_slots q) (enqueued q) []))"
proof (intro conjI impI)
  assume h: "q_inv q fl ql held \<and> data_ok senmax q \<and> unit_ok senmax u \<and> push_safe q"
  then have inv: "q_inv q fl ql held" and dat: "data_ok senmax q" and u: "unit_ok senmax u"
    and safe: "push_safe q" by simp_all
  from safe inv_safe[OF inv] have s: "fl \<noteq> [] \<or> 2 \<le> length ql" by simp
  from inv have f: "free q \<noteq> None \<longleftrightarrow> fl \<noteq> []" by (cases fl) (auto simp: q_inv_def)
  from push_safe_inv[OF inv dat u s]
  obtain q' where p: "push_senblk (Some u) q = Inr q'"
    and r: "if fl \<noteq> [] then q_inv q' (tl fl) (ql @ [hd fl]) held \<and>
                              cont q' (ql @ [hd fl]) = cont q ql @ [unit_of u]
            else q_inv q' [] (tl ql @ [hd ql]) held \<and>
                 cont q' (tl ql @ [hd ql]) = tl (cont q ql) @ [unit_of u]" by blast
  show "\<exists>q'. push_senblk (Some u) q = Inr q' \<and>
         (if free q \<noteq> None
          then free_slots q' = tl fl \<and> enqueued q' = ql @ [hd fl] \<and>
               contents q' = contents q @ [unit_of u]
          else free_slots q' = [] \<and> enqueued q' = tl ql @ [hd ql] \<and>
               contents q' = tl (contents q) @ [unit_of u]) \<and>
         q_inv q' (free_slots q') (enqueued q') held"
  proof (cases "fl = []")
    case False
    with r have i: "q_inv q' (tl fl) (ql @ [hd fl]) held"
      and c: "cont q' (ql @ [hd fl]) = cont q ql @ [unit_of u]" by simp_all
    from inv_read[OF i] inv_read(3)[OF inv] i c p f False show ?thesis by simp
  next
    case True
    with r have i: "q_inv q' [] (tl ql @ [hd ql]) held"
      and c: "cont q' (tl ql @ [hd ql]) = tl (cont q ql) @ [unit_of u]" by simp_all
    from inv_read[OF i] inv_read(3)[OF inv] i c p f True show ?thesis by simp
  qed
next
  assume h: "2 \<le> sz \<and> init_q senmax sz = Some q0 \<and> list_all (unit_ok senmax) us"
  then have sz: "2 \<le> sz" and q0: "init_q senmax sz = Some q0"
    and us: "list_all (unit_ok senmax) us" by simp_all
  from init_inv[OF q0] have i: "q_inv q0 [0..<sz] [] []" and d: "data_ok senmax q0"
    and l: "length (base q0) = sz" by simp_all
  from push_all_inv[OF i d l sz us]
  obtain q fl ql where p: "push_all us q0 = Inr q" and i': "q_inv q fl ql []"
    and c: "cont q ql = drop (length ([]::nat list) + length us - sz) (cont q0 [] @ map unit_of us)"
    by blast
  from c have "cont q ql = drop (length us - sz) (map unit_of us)" by (simp add: cont_def)
  with inv_read[OF i'] i' p
  show "\<exists>q. push_all us q0 = Inr q \<and>
         contents q = drop (length us - sz) (map unit_of us) \<and>
         q_inv q (free_slots q) (enqueued q) []" by simp
qed

lemma walk_self: "snext (h ! s) = Some s \<Longrightarrow> walk n h (Some s) = replicate n s"
  by (induction n) simp_all

text \<open>
  Claim C1 is not met by the code. In a queue with no free slot and a single unit
  enqueued, the slot that \<open>push_senblk\<close> takes from the head is still \<open>qtail\<close> when the
  new unit is linked in: \<open>q->qtail->next = tptr\<close> makes the slot its own successor and
  \<open>qhead\<close> is set to it again. The FIFO is then a cycle through that one slot, and
  \<open>next_senblk\<close> hands the slot out without taking it off the queue, call after call;
  the claim has the queue hold the new unit once. With \<open>-q 2\<close> the central queue is in
  that state whenever the engine holds one slot and one unit is waiting.
\<close>

theorem push_senblk_single_unit_cycle:
  "q_inv q [] [s] held \<and> data_ok senmax q \<and> unit_ok senmax u \<longrightarrow>
     (\<exists>q'. push_senblk (Some u) q = Inr q' \<and> qhead q' = Some s \<and> qtail q' = Some s \<and>
        snext (base q' ! s) = Some s \<and> unit_of (base q' ! s) = unit_of u \<and>
        contents q' = replicate (length (base q)) (unit_of u) \<and>
        next_senblk q' = (Slot s, q'))"
proof
  assume h: "q_inv q [] [s] held \<and> data_ok senmax q \<and> unit_ok senmax u"
  then have f: "free q = None" and hd: "qhead q = Some s" and tl: "qtail q = Some s"
    and s: "s < length (base q)" and sn: "snext (base q ! s) = None"
    and d: "data_ok senmax q" and u: "unit_ok senmax u"
    by (simp_all add: q_inv_def)
  from list_all_nth[OF d[unfolded data_ok_def] s] have l: "length (data (base q ! s)) = senmax" .
  with u obtain dd where c: "senblk_copy (base q ! s) u = Inr dd"
    and dd: "snext dd = None" "unit_of dd = unit_of u"
    by (simp add: senblk_copy_def unit_ok_def unit_of_def)
  define q' where "q' = q\<lparr>base := (base q)[s := dd\<lparr>snext := Some s\<rparr>], qhead := Some s, qtail := Some s\<rparr>"
  from f hd tl s sn c have p: "push_senblk (Some u) q = Inr q'"
    by (simp add: push_senblk_def take_slot_def link_tail_def Let_def q'_def)
  from s have b: "base q' ! s = dd\<lparr>snext := Some s\<rparr>" "length (base q') = length (base q)"
    by (simp_all add: q'_def)
  have n: "next_senblk q' = (Slot s, q')"
    using b by (simp add: next_senblk_def Let_def q'_def)
  have e: "enqueued q' = replicate (length (base q)) s"
    using b walk_self[of "base q'" s "length (base q')"] by (simp add: enqueued_def q'_def)
  have "contents q' = replicate (length (base q)) (unit_of u)"
    using e b dd by (simp add: contents_def map_replicate)
  with p n b dd show "\<exists>q'. push_senblk (Some u) q = Inr q' \<and> qhead q' = Some s \<and> qtail q' = Some s \<and>
        snext (base q' ! s) = Some s \<and> unit_of (base q' ! s) = unit_of u \<and>
        contents q' = replicate (length (base q)) (unit_of u) \<and>
        next_senblk q' = (Slot s, q')"
    by (simp add: q'_def)
qed

theorem push_senblk_single_unit_cycle_witness:
  "init_q 4 2 = Some q_fresh \<and>
   q_run [Push (Some (demo_unit 1)), Push (Some (demo_unit 2)), Next] (q_fresh, [], [])
     = Inr (q_tight, [0], [Slot 0]) \<and>
   (q_inv q_tight [] [1] [0] \<and> data_ok 4 q_tight \<and> unit_ok 4 (demo_unit 3)) \<and>
   (\<exists>q'. push_senblk (Some (demo_unit 3)) q_tight = Inr q' \<and> qhead q' = Some 1 \<and> qtail q' = Some 1 \<and>
      snext (base q' ! 1) = Some 1 \<and> unit_of (base q' ! 1) = unit_of (demo_unit 3) \<and>
      contents q' = [unit_of (demo_unit 3), unit_of (demo_unit 3)] \<and>
      next_senblk q' = (Slot 1, q'))"
proof -
  have a: "init_q 4 2 = Some q_fresh" by code_simp
  have b: "q_run [Push (Some (demo_unit 1)), Push (Some (demo_unit 2)), Next] (q_fresh, [], [])
     = Inr (q_tight, [0], [Slot 0])" by code_simp
  have c: "q_inv q_tight [] [1] [0] \<and> data_ok 4 q_tight \<and> unit_ok 4 (demo_unit 3)" by code_simp
  have l: "length (base q_tight) = 2" by code_simp
  from push_senblk_single_unit_cycle[of q_tight 1 "[0]" 4 "demo_unit 3"] c l
  have "\<exists>q'. push_senblk (Some (demo_unit 3)) q_tight = Inr q' \<and> qhead q' = Some 1 \<and> qtail q' = Some 1 \<and>
      snext (base q' ! 1) = Some 1 \<and> unit_of (base q' ! 1) = unit_of (demo_unit 3) \<and>
      contents q' = [unit_of (demo_unit 3), unit_of (demo_unit 3)] \<and>
      next_senblk q' = (Slot 1, q')"
    by (simp add: numeral_2_eq_2)
  with a b c show ?thesis by blast
qed

text \<open>
  The same from a fresh queue of two slots: the third unit is handed out by every
  \<open>next_senblk\<close> that follows.
\<close>

lemma push_senblk_steals_last_unit:
  "observe 4 2 [Push (Some (demo_unit 1)), Push (Some (demo_unit 2)), Next,
                Push (Some (demo_unit 3)), Next, Next, Next]
     = Some (Inr ([Slot 0, Slot 1, Slot 1, Slot 1], 0, 2, 4))"
  by code_simp

text \<open>
  Claim C2, as amended. Pushing \<open>NULL\<close> clears \<open>active\<close> and changes nothing else, a second
  time as well. \<open>next_senblk\<close> returns end-of-stream exactly when the FIFO is empty and
  the queue inactive; with an empty FIFO and an active queue it waits; with a
  non-empty FIFO it returns the head slot, which leaves the FIFO and becomes held.
\<close>

theorem next_senblk_result:
  "push_senblk None q = Inr (q\<lparr>active := False\<rparr>) \<and>
   push_senblk None (q\<lparr>active := False\<rparr>) = Inr (q\<lparr>active := False\<rparr>) \<and>
   enqueued (q\<lparr>active := False\<rparr>) = enqueued q \<and>
   contents (q\<lparr>active := False\<rparr>) = contents q \<and>
   (fst (next_senblk q) = EndOfStream \<longleftrightarrow> qhead q = None \<and> \<not> active q) \<and>
   (qhead q = None \<and> active q \<longrightarrow> next_senblk q = (Blocked, q)) \<and>
   (qhead q = Some t \<longrightarrow> fst (next_senblk q) = Slot t) \<and>
   (q_inv q fl ql held \<and> ql \<noteq> [] \<longrightarrow>
      qhead q = Some (hd ql) \<and> base (snd (next_senblk q)) = base q \<and>
      q_inv (snd (next_senblk q)) fl (tl ql) (hd ql # held))"
proof (intro conjI impI)
  show "push_senblk None q = Inr (q\<lparr>active := False\<rparr>)" by (rule push_nil)
  show "push_senblk None (q\<lparr>active := False\<rparr>) = Inr (q\<lparr>active := False\<rparr>)"
    by (simp add: push_nil)
  show "enqueued (q\<lparr>active := False\<rparr>) = enqueued q" by (simp add: enqueued_def)
  show "contents (q\<lparr>active := False\<rparr>) = contents q" by (simp add: contents_def enqueued_def)
  show "fst (next_senblk q) = EndOfStream \<longleftrightarrow> qhead q = None \<and> \<not> active q"
    by (cases "qhead q") (simp_all add: next_senblk_def Let_def)
  show "next_senblk q = (Blocked, q)" if "qhead q = None \<and> active q"
    using that by (simp add: next_senblk_def)
  show "fst (next_senblk q) = Slot t" if "qhead q = Some t"
    using that by (simp add: next_senblk_def Let_def)
next
  assume h: "q_inv q fl ql held \<and> ql \<noteq> []"
  then obtain t ql' where ql: "ql = t # ql'" by (cases ql) auto
  from h ql have "q_inv q fl (t # ql') held" by simp
  from next_slot[OF this] obtain q' where n: "next_senblk q = (Slot t, q')"
    and i: "q_inv q' fl ql' (t # held)" and b: "base q' = base q" by blast
  from h ql show "qhead q = Some (hd ql)" by (simp add: q_inv_def)
  from n b show "base (snd (next_senblk q)) = base q" by simp
  from n i ql show "q_inv (snd (next_senblk q)) fl (tl ql) (hd ql # held)" by simp
qed

theorem next_senblk_result_witness:
  "(qhead q_fresh = None \<and> active q_fresh) \<and> next_senblk q_fresh = (Blocked, q_fresh) \<and>
   qhead q_one = Some 0 \<and> fst (next_senblk q_one) = Slot 0 \<and>
   (q_inv q_one [1] [0] [] \<and> [0::nat] \<noteq> []) \<and>
   q_inv (snd (next_senblk q_one)) [1] [] [0] \<and>
   fst (next_senblk (q_fresh\<lparr>active := False\<rparr>)) = EndOfStream"
proof -
  have a: "qhead q_fresh = None \<and> active q_fresh" by code_simp
  have b: "qhead q_one = Some 0" by code_simp
  have c: "q_inv q_one [1] [0] [] \<and> [0::nat] \<noteq> []" by code_simp
  have d: "qhead (q_fresh\<lparr>active := False\<rparr>) = None \<and> \<not> active (q_fresh\<lparr>active := False\<rparr>)"
    by code_simp
  from next_senblk_result[of q_fresh 0 "[]" "[]" "[]"] a
  have 1: "next_senblk q_fresh = (Blocked, q_fresh)" by blast
  from next_senblk_result[of q_one 0 "[1]" "[0]" "[]"] b c
  have 2: "fst (next_senblk q_one) = Slot 0" "q_inv (snd (next_senblk q_one)) [1] [] [0]"
    by simp_all
  from next_senblk_result[of "q_fresh\<lparr>active := False\<rparr>" 0 "[]" "[]" "[]"] d
  have 3: "fst (next_senblk (q_fresh\<lparr>active := False\<rparr>)) = EndOfStream" by blast
  from a b c 1 2 3 show ?thesis by blast
qed

text \<open>
  The fresh queue is empty and active, so it is not in the end-of-stream state, yet
  \<open>next_senblk\<close> returns no unit there: it waits.
\<close>

theorem next_senblk_result_counterexample:
  "init_q 4 2 = Some q_fresh \<and> \<not> (qhead q_fresh = None \<and> \<not> active q_fresh) \<and>
   enqueued q_fresh = [] \<and> next_senblk q_fresh = (Blocked, q_fresh)"
  by code_simp

lemma step_eos:
  assumes "qhead q = None" "\<not> active q" "\<not> is_data_push a"
  shows "\<exists>q' held'. q_step a (q, held, outs) =
           Inr (q', held', outs @ (if a = Next then [EndOfStream] else [])) \<and>
           qhead q' = None \<and> \<not> active q'"
proof (cases a)
  case (Push sptr)
  with assms(3) have "sptr = None" by (cases sptr) auto
  with Push assms show ?thesis by (simp add: push_nil)
next
  case Next
  with assms show ?thesis by (simp add: next_senblk_def)
next
  case (Free t)
  with assms show ?thesis by (simp add: senblk_free_def)
qed

text \<open>
  Claim C3, as amended. Once \<open>next_senblk\<close> has returned end-of-stream, every later
  \<open>next_senblk\<close> returns end-of-stream as long as no unit is pushed: pushes of \<open>NULL\<close>,
  \<open>senblk_free\<close> and \<open>next_senblk\<close> calls may follow in any order.
\<close>

theorem end_of_stream_monotone:
  assumes "fst (next_senblk q) = EndOfStream" and "list_all (\<lambda>a. \<not> is_data_push a) ops"
  shows "\<exists>q' held'. q_run ops (q, held, outs) =
           Inr (q', held', outs @ replicate (length (filter (\<lambda>a. a = Next) ops)) EndOfStream) \<and>
           fst (next_senblk q') = EndOfStream"
proof -
  from assms(1) have e: "qhead q = None \<and> \<not> active q"
    by (cases "qhead q") (simp_all add: next_senblk_def Let_def split: if_splits)
  have "\<exists>q' held'. q_run ops (q, held, outs) =
           Inr (q', held', outs @ replicate (length (filter (\<lambda>a. a = Next) ops)) EndOfStream) \<and>
           qhead q' = None \<and> \<not> active q'"
    using e assms(2)
  proof (induction ops arbitrary: q held outs)
    case Nil
    then show ?case by simp
  next
    case (Cons a ops)
    from Cons.prems have h: "qhead q = None" "\<not> active q" "\<not> is_data_push a"
      and r: "list_all (\<lambda>a. \<not> is_data_push a) ops" by simp_all
    from step_eos[OF h] obtain q1 held1 where
      s: "q_step a (q, held, outs) = Inr (q1, held1, outs @ (if a = Next then [EndOfStream] else []))"
      and e1: "qhead q1 = None \<and> \<not> active q1" by blast
    from Cons.IH[OF e1 r, of held1 "outs @ (if a = Next then [EndOfStream] else [])"]
    show ?case using s by (auto simp: replicate_app_Cons_same)
  qed
  then obtain q' held' where r: "q_run ops (q, held, outs) =
           Inr (q', held', outs @ replicate (length (filter (\<lambda>a. a = Next) ops)) EndOfStream)"
    and e': "qhead q' = None" "\<not> active q'" by blast
  from e' have "fst (next_senblk q') = EndOfStream" by (simp add: next_senblk_def)
  with r show ?thesis by blast
qed

theorem end_of_stream_monotone_witness:
  "fst (next_senblk (q_fresh\<lparr>active := False\<rparr>)) = EndOfStream \<and>
   list_all (\<lambda>a. \<not> is_data_push a) [Next, Push None, Free 0, Next] \<and>
   (\<exists>q' held'. q_run [Next, Push None, Free 0, Next] (q_fresh\<lparr>active := False\<rparr>, [], []) =
           Inr (q', held', [EndOfStream, EndOfStream]) \<and>
           fst (next_senblk q') = EndOfStream)"
proof -
  have a: "fst (next_senblk (q_fresh\<lparr>active := False\<rparr>)) = EndOfStream" by code_simp
  have b: "list_all (\<lambda>a. \<not> is_data_push a) [Next, Push None, Free 0, Next]" by simp
  from end_of_stream_monotone[OF a b, of "[]" "[]"] a b show ?thesis
    by (simp del: q_run.simps)
qed

text \<open>
  \<open>push_senblk\<close> does not look at \<open>active\<close>: a unit pushed after end-of-stream is
  enqueued, and the next \<open>next_senblk\<close> returns it.
\<close>

theorem end_of_stream_monotone_counterexample:
  "observe 4 2 [Push None, Next, Push (Some (demo_unit 7)), Next]
     = Some (Inr ([EndOfStream, Slot 0], 1, 0, 1))"
  by code_simp
section \<open>Properties of the engine and of interface teardown\<close>





subsection \<open>The pairing over a run of the threads\<close>












lemma paired_inv_same:
  "ifaces st' = ifaces st \<Longrightarrow> qs st' = qs st \<Longrightarrow>
   paired_inv inp outp qa st' = paired_inv inp outp qa st"
  by (simp add: paired_inv_def)












lemma unlink_out_first:
  assumes "ifaces st a = Some ia" "ifaces st b = Some ib" "a \<noteq> b"
    "pair ia = Some b" "direction ia = OUT" "direction ib = IN" "info ia = Some sa"
    "a \<in> set (outputs st)" "ifq ia = Some qa"
  shows "\<exists>st1. unlink_interface a st = Inr st1 \<and> devlog st1 = devlog st @ [Close (fd sa)]"
  using assms
  by (simp add: unlink_interface_def unlink_lists_def list_unlink_def unlink_queue_def
      cleanup_serial_def unlink_pair_def Let_def)

lemma unlink_in_first:
  assumes "ifaces st a = Some ia" "ifaces st b = Some ib" "a \<noteq> b"
    "pair ib = Some a" "direction ia = OUT" "direction ib = IN" "info ib = Some sb"
    "b \<in> set (inputs st)" "ifq ia = Some qa" "qs st qa = Some qo"
    "ifq ib = Some ca" "qs st ca = Some qc"
  shows "\<exists>st1. unlink_interface b st = Inr st1 \<and> devlog st1 = devlog st @ [Close (fd sb)] \<and>
           ifaces st1 a = Some (ia\<lparr>pair := None\<rparr>) \<and> outputs st1 = outputs st"
  using assms
  by (auto simp add: unlink_interface_def unlink_lists_def list_unlink_def unlink_queue_def
      cleanup_serial_def unlink_pair_def set_inactive_def Let_def)

lemma unlink_out_last:
  assumes "ifaces st a = Some ia" "pair ia = None" "direction ia = OUT" "info ia = Some sa"
    "a \<in> set (outputs st)" "ifq ia = Some qa"
  shows "\<exists>st1. unlink_interface a st = Inr st1 \<and>
           devlog st1 = devlog st @ [Tcsetattr (fd sa) (otermios sa), Close (fd sa)]"
  using assms
  by (simp add: unlink_interface_def unlink_lists_def list_unlink_def unlink_queue_def
      cleanup_serial_def unlink_pair_def Let_def)

text \<open>
  Claim C9, as amended. Of the two halves of a split \<open>BOTH\<close> serial interface, the one
  that is unlinked first still has its \<open>pair\<close> and only closes its descriptor. When the
  input half is unlinked first, its \<open>unlink_interface\<close> clears the output half's
  \<open>pair\<close>, and the output half, unlinked after it, restores the saved terminal
  attributes before closing.
\<close>

theorem cleanup_serial_last_restores:
  assumes "ifaces st a = Some ia" "ifaces st b = Some ib" "a \<noteq> b"
    "pair ia = Some b" "pair ib = Some a" "direction ia = OUT" "direction ib = IN"
    "info ia = Some sa" "info ib = Some sb"
    "a \<in> set (outputs st)" "b \<in> set (inputs st)"
    "ifq ia = Some qa" "qs st qa = Some qo" "ifq ib = Some ca" "qs st ca = Some qc"
  shows "(\<exists>st1. unlink_interface a st = Inr st1 \<and> devlog st1 = devlog st @ [Close (fd sa)]) \<and>
         (\<exists>st1 st2. unlink_interface b st = Inr st1 \<and> devlog st1 = devlog st @ [Close (fd sb)] \<and>
            unlink_interface a st1 = Inr st2 \<and>
            devlog st2 = devlog st1 @ [Tcsetattr (fd sa) (otermios sa), Close (fd sa)])"
proof
  show "\<exists>st1. unlink_interface a st = Inr st1 \<and> devlog st1 = devlog st @ [Close (fd sa)]"
    using unlink_out_first[OF assms(1,2,3,4,6,7,8,10,12)] .
  from unlink_in_first[OF assms(1,2,3,5,6,7,9,11,12,13,14,15)]
  obtain st1 where u: "unlink_interface b st = Inr st1"
    and l: "devlog st1 = devlog st @ [Close (fd sb)]"
    and ia1: "ifaces st1 a = Some (ia\<lparr>pair := None\<rparr>)" and o: "outputs st1 = outputs st" by blast
  from unlink_out_last[OF ia1, of sa qa] assms(6,8,10,12) o
  obtain st2 where "unlink_interface a st1 = Inr st2"
    "devlog st2 = devlog st1 @ [Tcsetattr (fd sa) (otermios sa), Close (fd sa)]" by auto
  with u l show "\<exists>st1 st2. unlink_interface b st = Inr st1 \<and> devlog st1 = devlog st @ [Close (fd sb)] \<and>
            unlink_interface a st1 = Inr st2 \<and>
            devlog st2 = devlog st1 @ [Tcsetattr (fd sa) (otermios sa), Close (fd sa)]" by blast
qed


theorem cleanup_serial_last_restores_witness:
  "(ifaces demo_lists 1 = Some demo_out \<and> ifaces demo_lists 2 = Some demo_in \<and> (1::nat) \<noteq> 2 \<and>
    pair demo_out = Some 2 \<and> pair demo_in = Some 1 \<and>
    direction demo_out = OUT \<and> direction demo_in = IN \<and>
    info demo_out = Some \<lparr>fd = 3, otermios = 0\<rparr> \<and> info demo_in = Some \<lparr>fd = 4, otermios = 0\<rparr> \<and>
    1 \<in> set (outputs demo_lists) \<and> 2 \<in> set (inputs demo_lists) \<and>
    ifq demo_out = Some 11 \<and> qs demo_lists 11 = Some q_fresh \<and>
    ifq demo_in = Some 10 \<and> qs demo_lists 10 = Some q_one) \<and>
   (\<exists>st1. unlink_interface 1 demo_lists = Inr st1 \<and> devlog st1 = [Close 3]) \<and>
   (\<exists>st1 st2. unlink_interface 2 demo_lists = Inr st1 \<and> devlog st1 = [Close 4] \<and>
      unlink_interface 1 st1 = Inr st2 \<and> devlog st2 = [Close 4, Tcsetattr 3 0, Close 3])"
proof -
  have h: "ifaces demo_lists 1 = Some demo_out" "ifaces demo_lists 2 = Some demo_in" "(1::nat) \<noteq> 2"
    "pair demo_out = Some 2" "pair demo_in = Some 1"
    "direction demo_out = OUT" "direction demo_in = IN"
    "info demo_out = Some \<lparr>fd = 3, otermios = 0\<rparr>" "info demo_in = Some \<lparr>fd = 4, otermios = 0\<rparr>"
    "1 \<in> set (outputs demo_lists)" "2 \<in> set (inputs demo_lists)"
    "ifq demo_out = Some 11" "qs demo_lists 11 = Some q_fresh"
    "ifq demo_in = Some 10" "qs demo_lists 10 = Some q_one"
    by code_simp+
  have l: "devlog demo_lists = []" by code_simp
  from cleanup_serial_last_restores[OF h] l
  have "(\<exists>st1. unlink_interface 1 demo_lists = Inr st1 \<and> devlog st1 = [Close 3]) \<and>
   (\<exists>st1 st2. unlink_interface 2 demo_lists = Inr st1 \<and> devlog st1 = [Close 4] \<and>
      unlink_interface 1 st1 = Inr st2 \<and> devlog st2 = [Close 4, Tcsetattr 3 0, Close 3])"
    by auto
  with h show ?thesis by blast
qed

text \<open>
  The input half (address 2, descriptor 4) is unlinked first, then the output half
  (address 1, descriptor 3): the terminal attributes are restored by the output half.
\<close>

theorem cleanup_serial_last_restores_counterexample:
  "ifaces demo_lists 1 = Some demo_out \<and> direction demo_out = OUT \<and>
   map_option fd (info demo_out) = Some 3 \<and>
   ifaces demo_lists 2 = Some demo_in \<and> direction demo_in = IN \<and>
   map_sum id devlog (thenf (unlink_interface 2 demo_lists) (unlink_interface 1))
     = Inr [Close 4, Tcsetattr 3 0, Close 3]"
  by code_simp

text \<open>
  In the other order the output half sets the input half's direction to \<open>NONE\<close>, and
  \<open>unlink_interface\<close> then looks for the input half on the outputs list.
\<close>

lemma unlink_input_after_output_faults:
  "map_sum id devlog (thenf (unlink_interface 1 demo_lists) (unlink_interface 2)) = Inl NullDeref"
  by code_simp
section \<open>Properties of the serial reader\<close>

lemma has_crlf_snoc:
  "has_crlf (p @ [b]) = (has_crlf p \<or> (p \<noteq> [] \<and> last p = CR \<and> b = LF))"
  by (induction p rule: has_crlf.induct) auto

lemma mid_step:
  assumes "rs_mid senmax s p ps" "\<not> (b = LF \<and> p \<noteq> [] \<and> last p = CR)"
  shows "rs_mid senmax (read_byte senmax ifa s b) (p @ [b]) ps"
proof (cases "count s < senmax")
  case True
  with assms(1) have lp: "length p < senmax" "count s = length p" "senptr s = length p"
    "length (sdata s) = senmax" "take (length p) (sdata s) = p" "overrun s = 0"
    by (auto simp: rs_mid_def min_def split: if_splits)
  have t: "take (Suc (length p)) ((sdata s)[length p := b]) = p @ [b]"
    using lp by (simp add: take_Suc_conv_app_nth)
  show ?thesis using True assms lp t
    by (auto simp: rs_mid_def read_byte_def Let_def min_def)
next
  case False
  with assms(1) have lp: "senmax \<le> length p" "count s = senmax"
    by (auto simp: rs_mid_def min_def split: if_splits)
  show ?thesis using False assms lp
    by (auto simp: rs_mid_def read_byte_def Let_def min_def)
qed


lemma mid_prefix:
  assumes "\<not> has_crlf p" "rs_mid senmax s0 [] ps"
  shows "rs_mid senmax (foldl (read_byte senmax ifa) s0 p) p ps"
  using assms
proof (induction p rule: rev_induct)
  case Nil
  then show ?case by simp
next
  case (snoc b p)
  from snoc.prems(1) have np: "\<not> has_crlf p" and nb: "\<not> (b = LF \<and> p \<noteq> [] \<and> last p = CR)"
    by (auto simp: has_crlf_snoc)
  from mid_step[OF snoc.IH[OF np snoc.prems(2)] nb] show ?case by simp
qed

lemma CR_neq_LF: "CR \<noteq> LF" "LF \<noteq> CR"
  by (simp_all add: CR_def LF_def)

lemma mid_sentence:
  assumes w: "wire_sentence s" and m: "rs_mid senmax s0 [] ps"
  shows "\<exists>ps'. rs_mid senmax (foldl (read_byte senmax ifa) s0 s) [] ps' \<and>
           map unit_of ps' = map unit_of ps @ (if length s \<le> senmax then [(length s, ifa, s)] else [])"
proof -
  from w obtain body where s: "s = body @ [CR, LF]"
    by (metis wire_sentence_def append_take_drop_id)
  with w have nc: "\<not> has_crlf (body @ [CR])" by (simp add: wire_sentence_def butlast_append)
  define s1 where "s1 = foldl (read_byte senmax ifa) s0 (body @ [CR])"
  from mid_prefix[OF nc m] have m1: "rs_mid senmax s1 (body @ [CR]) ps" by (simp only: s1_def)
  have "foldl (read_byte senmax ifa) s0 ((body @ [CR]) @ [LF])
          = read_byte senmax ifa (foldl (read_byte senmax ifa) s0 (body @ [CR])) LF"
    by (simp only: foldl_append foldl_Cons foldl_Nil)
  then have f: "foldl (read_byte senmax ifa) s0 s = read_byte senmax ifa s1 LF"
    by (simp add: s s1_def)
  note m1' = m1[unfolded rs_mid_def]
  from m1' have l1: "length (sdata s1) = senmax" by blast
  from m1' have "count s1 = min (length (body @ [CR])) senmax" by blast
  then have c1: "count s1 = min (Suc (length body)) senmax" by simp
  from m1' have p1: "senptr s1 = count s1" by blast
  from m1' have "overrun s1 = length (body @ [CR]) - senmax" by blast
  then have o1: "overrun s1 = Suc (length body) - senmax" by simp
  from m1' have t1: "take (count s1) (sdata s1) = take senmax (body @ [CR])" by blast
  from m1' have ps1: "pushed s1 = ps" by blast
  from m1' have "cr s1 \<noteq> 0 \<longleftrightarrow> body @ [CR] \<noteq> [] \<and> last (body @ [CR]) = CR" by blast
  then have cr1: "cr s1 \<noteq> 0" by simp
  show ?thesis
  proof (cases "length s \<le> senmax")
    case True
    with s have lt: "Suc (length body) < senmax" by simp
    with c1 have c: "count s1 = Suc (length body)" by simp
    with t1 lt have t: "take (Suc (length body)) (sdata s1) = body @ [CR]" by simp
    from o1 lt have o: "overrun s1 = 0" by simp
    let ?u = "\<lparr>len = Suc (Suc (length body)), src = ifa,
               data = (sdata s1)[Suc (length body) := LF], snext = None\<rparr>"
    have r: "read_byte senmax ifa s1 LF =
        s1\<lparr>sdata := (sdata s1)[Suc (length body) := LF], pushed := ps @ [?u],
             senptr := 0, count := 0, cr := 0\<rparr>"
      using lt c p1 o cr1 ps1 by (simp add: read_byte_def Let_def CR_neq_LF)
    have "take (Suc (Suc (length body))) ((sdata s1)[Suc (length body) := LF]) = body @ [CR, LF]"
      using t l1 lt by (simp add: take_Suc_conv_app_nth[of "Suc (length body)"])
    then have u: "unit_of ?u = (length s, ifa, s)" by (simp add: unit_of_def s)
    have "rs_mid senmax (read_byte senmax ifa s1 LF) [] (ps @ [?u])"
      using l1 o by (simp add: r rs_mid_def)
    with u f True show ?thesis by auto
  next
    case False
    with s have ge: "senmax \<le> Suc (length body)" by simp
    with c1 have c: "count s1 = senmax" by simp
    have r: "read_byte senmax ifa s1 LF = s1\<lparr>overrun := 0, senptr := 0, count := 0, cr := 0\<rparr>"
      using c cr1 by (simp add: read_byte_def Let_def CR_neq_LF)
    have "rs_mid senmax (read_byte senmax ifa s1 LF) [] ps"
      using l1 ps1 by (simp add: r rs_mid_def)
    with f False show ?thesis by auto
  qed
qed

lemma mid_sentences:
  assumes "list_all wire_sentence ss" "rs_mid senmax s0 [] ps"
  shows "\<exists>ps'. rs_mid senmax (foldl (read_byte senmax ifa) s0 (concat ss)) [] ps' \<and>
           map unit_of ps' = map unit_of ps @
             map (\<lambda>s. (length s, ifa, s)) (filter (\<lambda>s. length s \<le> senmax) ss)"
  using assms
proof (induction ss arbitrary: s0 ps)
  case Nil
  then show ?case by auto
next
  case (Cons s ss)
  from Cons.prems(1) have w: "wire_sentence s" and ws: "list_all wire_sentence ss" by simp_all
  from mid_sentence[OF w Cons.prems(2)]
  obtain ps1 where m1: "rs_mid senmax (foldl (read_byte senmax ifa) s0 s) [] ps1"
    and u1: "map unit_of ps1 = map unit_of ps @ (if length s \<le> senmax then [(length s, ifa, s)] else [])"
    by blast
  from Cons.IH[OF ws m1]
  obtain ps' where "rs_mid senmax (foldl (read_byte senmax ifa) (foldl (read_byte senmax ifa) s0 s) (concat ss)) [] ps'"
    and "map unit_of ps' = map unit_of ps1 @
             map (\<lambda>s. (length s, ifa, s)) (filter (\<lambda>s. length s \<le> senmax) ss)" by blast
  with u1 show ?case by auto
qed

lemma foldl_chunks: "foldl (\<lambda>s chunk. foldl f s chunk) s chunks = foldl f s (concat chunks)"
  by (induction chunks arbitrary: s) simp_all

text \<open>
  Claim C8, as amended. When the bytes read are a sequence of sentences, each ending
  with its first \<open>CR LF\<close>, \<open>read_serial\<close> pushes exactly the sentences whose length
  with the terminator is at most \<open>SENMAX\<close>, each once and in order, with \<open>src\<close> the
  interface, \<open>len\<close> the length with the terminator and the sentence with its terminator
  as data; the longer ones are dropped. How \<open>read\<close> cuts the bytes into chunks does not
  matter.
\<close>

theorem read_serial_framing:
  assumes "list_all wire_sentence ss" and "length uninit = senmax" and "concat chunks = concat ss"
  shows "map unit_of (pushed (read_serial senmax ifa uninit chunks)) =
           map (\<lambda>s. (length s, ifa, s)) (filter (\<lambda>s. length s \<le> senmax) ss)"
proof -
  have m: "rs_mid senmax (rs_init uninit) [] []"
    using assms(2) by (simp add: rs_mid_def rs_init_def)
  have "read_serial senmax ifa uninit chunks = foldl (read_byte senmax ifa) (rs_init uninit) (concat ss)"
    by (simp add: read_serial_def foldl_chunks assms(3))
  with mid_sentences[OF assms(1) m, of ifa] show ?thesis
    by (auto simp: rs_mid_def)
qed

theorem read_serial_framing_witness:
  "list_all wire_sentence [''$AB'' @ [CR, LF], ''$CDEFGH'' @ [CR, LF], ''$CDEF'' @ [CR, LF]] \<and>
   length (replicate 8 (CHR ''x'')) = 8 \<and>
   concat [''$AB'' @ [CR], [LF] @ ''$CDEFGH'' @ [CR, LF], ''$CDEF'' @ [CR, LF]]
     = concat [''$AB'' @ [CR, LF], ''$CDEFGH'' @ [CR, LF], ''$CDEF'' @ [CR, LF]] \<and>
   map unit_of (pushed (read_serial 8 (Some 1) (replicate 8 (CHR ''x''))
       [''$AB'' @ [CR], [LF] @ ''$CDEFGH'' @ [CR, LF], ''$CDEF'' @ [CR, LF]]))
     = [(5, Some 1, ''$AB'' @ [CR, LF]), (7, Some 1, ''$CDEF'' @ [CR, LF])]"
proof -
  have a: "list_all wire_sentence [''$AB'' @ [CR, LF], ''$CDEFGH'' @ [CR, LF], ''$CDEF'' @ [CR, LF]]"
    by code_simp
  have b: "length (replicate 8 (CHR ''x'')) = 8" by simp
  have c: "concat [''$AB'' @ [CR], [LF] @ ''$CDEFGH'' @ [CR, LF], ''$CDEF'' @ [CR, LF]]
     = concat [''$AB'' @ [CR, LF], ''$CDEFGH'' @ [CR, LF], ''$CDEF'' @ [CR, LF]]" by simp
  from read_serial_framing[OF a b c, of "Some 1"] a b c show ?thesis by simp
qed

text \<open>
  \<open>CR\<close> and \<open>LF\<close> are counted and stored like any other byte, so a sentence of
  \<open>SENMAX - 1\<close> bytes before the terminator overruns: seven bytes with \<open>SENMAX = 8\<close>, and
  95 bytes with \<open>SENMAX = 96\<close>, are not pushed.
\<close>

theorem read_serial_framing_counterexample:
  "wire_sentence (''$ABCDEF'' @ [CR, LF]) \<and> length ''$ABCDEF'' \<le> 8 \<and>
   pushed (read_serial 8 (Some 1) (replicate 8 (CHR 0x00)) [''$ABCDEF'' @ [CR, LF]]) = [] \<and>
   wire_sentence (replicate 95 (CHR ''A'') @ [CR, LF]) \<and> length (replicate 95 (CHR ''A'')) \<le> 96 \<and>
   pushed (read_serial 96 (Some 1) (replicate 96 (CHR 0x00)) [replicate 95 (CHR ''A'') @ [CR, LF]]) = []"
  by code_simp

section \<open>The queue size accepted by main\<close>

lemma getopt_loop_err:
  "getopt_loop argv v = Inr v' \<Longrightarrow> err v' = 0 \<Longrightarrow> err v = 0 \<and> (qsize v' = qsize v \<or> 2 \<le> qsize v')"
proof (induction argv v rule: getopt_loop.induct)
  case (4 optarg rest v)
  let ?v1 = "v\<lparr>qsize := atoi optarg\<rparr>"
  let ?v2 = "if qsize ?v1 < 2 then ?v1\<lparr>err := err ?v1 + 1\<rparr> else ?v1"
  from 4 have "err ?v2 = 0 \<and> (qsize v' = qsize ?v2 \<or> 2 \<le> qsize v')"
    by (simp add: Let_def)
  then show ?case by (auto split: if_splits)
qed (auto split: if_splits)

text \<open>
  Claim C6 is not met by the code. A \<open>-q\<close> argument below 2 ends \<open>main\<close> with exit
  status 1, and whatever \<open>-q\<close> leaves in \<open>qsize\<close> is at least 2; but the \<open>qsize\<close> key of
  the global section is only rejected when \<open>atoi\<close> gives 0: \<open>qsize=1\<close> is accepted and
  a central queue of one slot is built.
\<close>

theorem global_qsize_one_accepted:
  "main_qsize d [] [(''qsize'', ''1'')] = Inr 1 \<and>
   main_qsize d [Opt_q ''1''] [] = Inl (Exit 1) \<and>
   main_qsize d [] [(''qsize'', ''0'')] = Inl (Exit 1) \<and>
   map_option (\<lambda>q0. length (base q0)) (init_q senmax 1) = Some 1"
  by (simp add: main_qsize_def mainvars0_def atoi_def strtol_def to_int32_def isspace_def
      isdigit_def init_q_def)


text \<open>
  A number beyond the range of \<open>int\<close> is cut to its low 32 bits: \<open>4294967297\<close> is the
  queue size 1 in the global section and is rejected after \<open>-q\<close>.
\<close>

lemma atoi_keeps_low_bits:
  "atoi ''4294967297'' = 1 \<and> atoi '' -12x'' = - 12 \<and>
   main_qsize 16 [] [(''qsize'', ''4294967297'')] = Inr 1 \<and>
   main_qsize 16 [Opt_q ''4294967297''] [] = Inl (Exit 1)"
  by code_simp
section \<open>Properties of the configuration parser\<close>

lemma scan_quoted_fault: "scan_quoted quote buf p = Inl e \<Longrightarrow> e = OutOfBounds"
proof (induction quote buf p rule: scan_quoted.induct)
  case (1 quote buf p)
  note prem = "1.prems"[unfolded scan_quoted.simps[of quote buf p]]
  show ?case
  proof (cases "p < length buf \<and> buf ! p \<noteq> quote")
    case True
    with prem have "scan_quoted quote buf (Suc p) = Inl e" by simp
    with "1.IH" True show ?thesis by simp
  next
    case False
    with prem show ?thesis by (auto split: if_splits)
  qed
qed

text \<open>
  Whatever follows the opening quote, \<open>next_config\<close> never returns a quoted value:
  once the closing quote is found it returns -1, and without one the scan leaves the
  buffer.
\<close>

lemma quoted_value_never_accepted:
  assumes "skip_blank buf p = Inr p1" and "buf ! p1 = CHR 0x27 \<or> buf ! p1 = CHR 0x22"
  shows "config_value at_eof buf var p = Inl OutOfBounds \<or>
         config_value at_eof buf var p = Inr (Syntax_error, buf)"
proof (cases "scan_quoted (buf ! p1) buf (Suc p1)")
  case (Inl e)
  with scan_quoted_fault[OF Inl] assms show ?thesis by (simp add: config_value_def)
next
  case (Inr p2)
  with assms show ?thesis by (simp add: config_value_def)
qed

text \<open>
  Claim C7 is not met by the code. For the body line \<open>key = "value"\<close>, and for the same
  line with single quotes, \<open>next_config\<close> returns -1; the same line without quotes is
  accepted with the value \<open>value\<close>.
\<close>

theorem next_config_quoted_value:
  "map_sum id fst (next_config (replicate 64 NUL) ([''key = \"value\"\<newline>''], False) 0)
     = Inr Syntax_error \<and>
   map_sum id fst (next_config (replicate 64 NUL)
       ([''key = '' @ [CHR 0x27] @ ''value'' @ [CHR 0x27, CHR 0x0A]], False) 0)
     = Inr Syntax_error \<and>
   map_sum id fst (next_config (replicate 64 NUL) ([''key = value\<newline>''], False) 0)
     = Inr (Var_val ''key'' ''value'')"
  by code_simp




lemma add_common_opt_other:
  "\<not> sets_direction var val \<Longrightarrow>
   add_common_opt var val ifp = (- 2, ifp) \<or> add_common_opt var val ifp = (1, ifp)"
  by (auto simp: add_common_opt_def sets_direction_def valid_direction_def)

lemma get_config_loop_undirected:
  "get_config_loop ifp buf fp line = Inr (Some ifp', buf1, fp1, line1) \<Longrightarrow>
   \<not> has_direction_line buf fp line \<Longrightarrow> direction ifp' = direction ifp"
proof (induction ifp buf fp line rule: get_config_loop.induct)
  case (1 ifp buf fp line)
  note prem = "1.prems"(1)[unfolded get_config_loop.simps[of ifp buf fp line]]
  note noline = "1.prems"(2)[unfolded has_direction_line.simps[of buf fp line]]
  from prem obtain r b f l where n: "next_config buf fp line = Inr (r, b, f, l)"
    by (cases "next_config buf fp line") auto
  show ?case
  proof (cases r)
    case Var_null
    with prem n show ?thesis by simp
  next
    case Syntax_error
    with prem n show ?thesis by simp
  next
    case (Var_val var val)
    with noline n have nd: "\<not> sets_direction var val" and nk: "\<not> has_direction_line b f l"
      by simp_all
    from add_common_opt_other[OF nd, of ifp] show ?thesis
    proof
      assume "add_common_opt var val ifp = (- 2, ifp)"
      with prem n Var_val show ?thesis by simp
    next
      assume a: "add_common_opt var val ifp = (1, ifp)"
      with prem n Var_val
      have "get_config_loop (add_option var val ifp) b f l = Inr (Some ifp', buf1, fp1, line1)"
        by simp
      from "1.IH"(2)[OF n refl Var_val refl refl a[symmetric] _ _ this nk]
      show ?thesis by (simp add: add_option_def)
    qed
  qed
qed


text \<open>
  At every turn of the loop of \<open>parse_file\<close>: when the section that
  \<open>get_interface_section\<close> finds is not \<open>[global]\<close> and its body has no line that sets
  a direction, the program ends there with exit status 1 (or has run out of
  \<open>configbuf\<close> while \<open>get_config\<close> read the body).
\<close>

lemma section_without_direction_fatal:
  assumes g: "get_interface_section iftypes buf fp line = Inr (Some ty, buf1, fp1, line1)"
    and ty: "ty \<noteq> END" "ty \<noteq> GLOBAL" and n: "\<not> has_direction_line buf1 fp1 line1"
  shows "parse_file_loop iftypes type0 uninit list buf fp line = Inl (Exit 1) \<or>
         (\<exists>e. get_config type0 buf1 fp1 line1 = Inl e \<and>
              parse_file_loop iftypes type0 uninit list buf fp line = Inl (Crash e))"
proof (cases "get_config type0 buf1 fp1 line1")
  case (Inl e)
  with g ty show ?thesis by (simp add: parse_file_loop.simps[of iftypes type0 uninit list buf fp line])
next
  case (Inr res)
  obtain r buf2 fp2 line2 where res: "res = (r, buf2, fp2, line2)" by (cases res) auto
  show ?thesis
  proof (cases r)
    case None
    with g ty Inr res show ?thesis
      by (simp add: parse_file_loop.simps[of iftypes type0 uninit list buf fp line])
  next
    case (Some ifp)
    with Inr res have c: "get_config type0 buf1 fp1 line1 = Inr (Some ifp, buf2, fp2, line2)"
      by simp
    from get_config_loop_undirected[OF c[unfolded get_config_def] n]
    have "direction ifp = NONE" by (simp add: zero_iface_def)
    with ty have "link_section ty ifp list = Inl (Exit 1)" by (simp add: link_section_def)
    with g ty c show ?thesis
      by (simp add: parse_file_loop.simps[of iftypes type0 uninit list buf fp line])
  qed
qed









subsection \<open>Configuration files in plain form\<close>



















end
